theory Spec2Isabelle
  imports Complex_Main "HOL-Library.Word"
begin

unbundle bit_operations_syntax

section \<open>Data model of \<^verbatim>\<open>src/hash_table.h\<close>\<close>

text \<open>
  The embedding follows \<^verbatim>\<open>src/hash_table.c\<close> function by function.

  \<^item> A byte is an \<open>8 word\<close>. A key buffer is the list of the bytes that start at the key
    pointer; a NULL pointer is \<open>None\<close>. The declared length \<open>key_size\<close> travels next to
    the buffer, as in the C signatures, and the caller promises \<open>key_size \<le> length key\<close>.
  \<^item> \<open>size_t\<close> is taken as 64 bits wide (LP64). Only the hash arithmetic can wrap, so the
    hash is a \<open>64 word\<close>; capacities, sizes, indices and lengths, which are bounded by
    what was allocated, are natural numbers. The one decrement of \<open>size\<close> has its
    wrap-around written out.
  \<^item> A value pointer (\<open>void *\<close>) is an address, with \<open>NULL = 0\<close>.
  \<^item> The two \<open>float\<close> fields hold finite values and are modelled by the rational number
    they denote; arithmetic on them is exact, the rounding of binary32 is not modelled.
    Division of a positive float by zero gives \<open>+infinity\<close> (IEEE 754), which is greater
    than every finite threshold; this case is written out in \<open>load_exceeds\<close>.
  \<^item> The results of \<open>malloc\<close> and \<open>calloc\<close> are inputs of the model (a record of booleans,
    one per allocation site), so that every allocation-failure branch is a branch of
    the model.
  \<^item> Calls of \<open>free\<close> and of the value destructor are returned as a list of events.
  \<^item> An array pointer that is NULL is an array with no cell (the empty list).
  \<^item> \<open>hash_table_destroy\<close> and \<open>hash_table_insert_copy\<close> (and its string wrapper) are not
    modelled; no statement below depends on them.
\<close>

type_synonym byte = "8 word"
type_synonym ptr = nat

definition NULL :: ptr where
  "NULL = 0"

datatype fault = Null_Dereference | Division_By_Zero | Float_Conversion_Out_Of_Range

datatype event = Free_Key "byte list" | Call_Destructor nat ptr | Call_Free ptr

record hash_table =
  capacity :: nat
  keys :: "byte list option list"
  key_sizes :: "nat list"
  ht_values :: "ptr list"
  ht_size :: nat
  resize_threshold :: rat
  resize_factor :: rat
  value_destructor :: "nat option"

text \<open>Outcome of the allocations of one call of create, and of one call of insert.\<close>

record create_alloc =
  malloc_table :: bool
  create_keys :: bool
  create_key_sizes :: bool
  create_values :: bool

record insert_alloc =
  calloc_keys :: bool
  calloc_key_sizes :: bool
  calloc_values :: bool
  malloc_key :: bool

section \<open>Constants and creation (lines 14--51)\<close>

definition HASH_TABLE_DEFAULT_INITIAL_CAPACITY :: nat where
  "HASH_TABLE_DEFAULT_INITIAL_CAPACITY = 16"

definition HASH_TABLE_DEFAULT_RESIZE_THRESHOLD :: rat where
  "HASH_TABLE_DEFAULT_RESIZE_THRESHOLD = 1 / 2"

definition HASH_TABLE_DEFAULT_RESIZE_FACTOR :: rat where
  "HASH_TABLE_DEFAULT_RESIZE_FACTOR = 2"

text \<open>
  \<open>calloc n\<close>: a zeroed array of \<open>n\<close> cells, or NULL. The code never tests the result of
  \<open>malloc\<close> for the table itself: line 42 writes through it.
\<close>

definition calloc :: "bool \<Rightarrow> nat \<Rightarrow> 'a \<Rightarrow> 'a list" where
  "calloc ok n zero = (if ok then replicate n zero else [])"

definition hash_table_create_with_parameters_and_destructor ::
  "nat \<Rightarrow> rat \<Rightarrow> rat \<Rightarrow> nat option \<Rightarrow> create_alloc \<Rightarrow> fault + hash_table option" where
  "hash_table_create_with_parameters_and_destructor cap threshold factor destructor al =
     (if \<not> malloc_table al then Inl Null_Dereference
      else Inr (Some \<lparr>capacity = cap,
                      keys = calloc (create_keys al) cap None,
                      key_sizes = calloc (create_key_sizes al) cap 0,
                      ht_values = calloc (create_values al) cap NULL,
                      ht_size = 0,
                      resize_threshold = threshold,
                      resize_factor = factor,
                      value_destructor = destructor\<rparr>))"

definition hash_table_create :: "create_alloc \<Rightarrow> fault + hash_table option" where
  "hash_table_create al =
     hash_table_create_with_parameters_and_destructor
       HASH_TABLE_DEFAULT_INITIAL_CAPACITY
       HASH_TABLE_DEFAULT_RESIZE_THRESHOLD
       HASH_TABLE_DEFAULT_RESIZE_FACTOR
       None al"

definition hash_table_create_with_destructor :: "nat option \<Rightarrow> create_alloc \<Rightarrow> fault + hash_table option" where
  "hash_table_create_with_destructor destructor al =
     hash_table_create_with_parameters_and_destructor
       HASH_TABLE_DEFAULT_INITIAL_CAPACITY
       HASH_TABLE_DEFAULT_RESIZE_THRESHOLD
       HASH_TABLE_DEFAULT_RESIZE_FACTOR
       destructor al"

definition hash_table_create_with_parameters ::
  "nat \<Rightarrow> rat \<Rightarrow> rat \<Rightarrow> create_alloc \<Rightarrow> fault + hash_table option" where
  "hash_table_create_with_parameters cap threshold factor al =
     hash_table_create_with_parameters_and_destructor cap threshold factor None al"

section \<open>Hashing (lines 266--278)\<close>

definition hash_table_fnv_1a :: "byte list \<Rightarrow> nat \<Rightarrow> 64 word" where
  "hash_table_fnv_1a key key_size =
     foldl (\<lambda>hash b. (hash XOR ucast b) * 0x1000193) 0x811C9DC5 (take key_size key)"

section \<open>Size, capacity, clear (lines 62--87)\<close>

definition hash_table_size :: "hash_table option \<Rightarrow> nat" where
  "hash_table_size table = (case table of None \<Rightarrow> 0 | Some t \<Rightarrow> ht_size t)"

definition hash_table_capacity :: "hash_table option \<Rightarrow> nat" where
  "hash_table_capacity table = (case table of None \<Rightarrow> 0 | Some t \<Rightarrow> capacity t)"

text \<open>The value of a slot is released by the destructor when one is configured, by \<open>free\<close> otherwise.\<close>

definition release_value :: "hash_table \<Rightarrow> ptr \<Rightarrow> event" where
  "release_value t v = (case value_destructor t of Some d \<Rightarrow> Call_Destructor d v | None \<Rightarrow> Call_Free v)"

definition clear_slot :: "hash_table \<times> event list \<Rightarrow> nat \<Rightarrow> hash_table \<times> event list" where
  "clear_slot st i =
     (case keys (fst st) ! i of
        None \<Rightarrow> st
      | Some k \<Rightarrow>
          ((fst st)\<lparr>keys := (keys (fst st))[i := None],
                    ht_values := (ht_values (fst st))[i := NULL]\<rparr>,
           snd st @ [Free_Key k, release_value (fst st) (ht_values (fst st) ! i)]))"

definition hash_table_clear :: "hash_table option \<Rightarrow> hash_table option \<times> event list" where
  "hash_table_clear table =
     (case table of
        None \<Rightarrow> (None, [])
      | Some t \<Rightarrow>
          (let st = foldl clear_slot (t, []) [0..<capacity t]
           in (Some ((fst st)\<lparr>ht_size := 0\<rparr>), snd st)))"

section \<open>The probe scan (lines 100--108, 184--200, 223--241)\<close>

text \<open>
  \<open>memcmp a b n\<close> compares the first \<open>n\<close> bytes. Both buffers hold at least \<open>n\<close> bytes
  wherever the code calls it on a well-formed table; bytes that are not there compare equal
  in the model.
\<close>

fun memcmp :: "byte list \<Rightarrow> byte list \<Rightarrow> nat \<Rightarrow> int" where
  "memcmp (a # as) (b # bs) (Suc n) =
     (if a = b then memcmp as bs n else if a < b then - 1 else 1)"
| "memcmp _ _ _ = 0"

text \<open>
  The three lookups run the same loop: while the slot at \<open>index\<close> holds a key and fewer than
  \<open>capacity\<close> iterations have been made, compare the stored length and bytes with the
  query; on a match the loop is left with the index (\<open>Found\<close>), otherwise the scan moves to
  \<open>(index + 1) mod capacity\<close>. \<open>Stopped\<close> is the exit through the loop condition. Both
  results carry the value of the counter \<open>iterations\<close>.
\<close>

datatype probe_result = Found nat nat | Stopped nat nat

function probe_loop :: "hash_table \<Rightarrow> byte list \<Rightarrow> nat \<Rightarrow> nat \<Rightarrow> nat \<Rightarrow> probe_result" where
  "probe_loop t key key_size index iterations =
     (if keys t ! index \<noteq> None \<and> iterations < capacity t then
        (if key_sizes t ! index = key_size \<and> memcmp (the (keys t ! index)) key key_size = 0
         then Found index iterations
         else probe_loop t key key_size ((index + 1) mod capacity t) (iterations + 1))
      else Stopped index iterations)"
  by pat_completeness auto
termination
  by (relation "measure (\<lambda>(t, key, key_size, index, iterations). capacity t - iterations)") auto

fun probe_iterations :: "probe_result \<Rightarrow> nat" where
  "probe_iterations (Found index iterations) = iterations"
| "probe_iterations (Stopped index iterations) = iterations"

section \<open>Lookup (lines 89--111)\<close>

definition hash_table_get :: "hash_table option \<Rightarrow> byte list option \<Rightarrow> nat \<Rightarrow> fault + ptr" where
  "hash_table_get table key key_size =
     (case (table, key) of
        (Some t, Some k) \<Rightarrow>
          (if capacity t = 0 then Inl Division_By_Zero
           else (case probe_loop t k key_size (unat (hash_table_fnv_1a k key_size) mod capacity t) 0 of
                   Found index iterations \<Rightarrow> Inr (ht_values t ! index)
                 | Stopped index iterations \<Rightarrow> Inr NULL))
      | _ \<Rightarrow> Inr NULL)"

definition hash_table_contains :: "hash_table option \<Rightarrow> byte list option \<Rightarrow> nat \<Rightarrow> fault + int" where
  "hash_table_contains table key key_size =
     (case (table, key) of
        (Some t, Some k) \<Rightarrow>
          (case hash_table_get table key key_size of
             Inl f \<Rightarrow> Inl f
           | Inr v \<Rightarrow> Inr (if v \<noteq> NULL then 1 else 0))
      | _ \<Rightarrow> Inr 0)"

section \<open>Growth (lines 113--169)\<close>

text \<open>
  The scan of the rehash loop (lines 150--153) looks for the first slot without a key; it
  compares no key.
\<close>

function rehash_probe :: "hash_table \<Rightarrow> nat \<Rightarrow> nat \<Rightarrow> nat" where
  "rehash_probe t index iterations =
     (if keys t ! index \<noteq> None \<and> iterations < capacity t
      then rehash_probe t ((index + 1) mod capacity t) (iterations + 1)
      else index)"
  by pat_completeness auto
termination
  by (relation "measure (\<lambda>(t, index, iterations). capacity t - iterations)") auto

text \<open>The body of the \<open>for\<close> loop of lines 144--161, for the old slot \<open>i\<close>.\<close>

definition rehash_entry ::
  "byte list option list \<Rightarrow> nat list \<Rightarrow> ptr list \<Rightarrow> hash_table \<Rightarrow> nat \<Rightarrow> hash_table" where
  "rehash_entry old_keys old_key_sizes old_values t i =
     (case old_keys ! i of
        None \<Rightarrow> t
      | Some k \<Rightarrow>
          (let index = rehash_probe t (unat (hash_table_fnv_1a k (old_key_sizes ! i)) mod capacity t) 0
           in t\<lparr>keys := (keys t)[index := old_keys ! i],
                key_sizes := (key_sizes t)[index := old_key_sizes ! i],
                ht_values := (ht_values t)[index := old_values ! i],
                ht_size := ht_size t + 1\<rparr>))"

text \<open>
  \<open>hash_table_resize\<close> is static and its only caller, \<open>hash_table_insert\<close>, passes a table
  it has already tested against NULL, so the model takes the table itself. The result is
  the return code and the table as the call leaves it. On an allocation failure the three
  array fields, already overwritten, are set back to the saved arrays.
\<close>

definition hash_table_resize :: "hash_table \<Rightarrow> nat \<Rightarrow> insert_alloc \<Rightarrow> int \<times> hash_table" where
  "hash_table_resize t new_capacity al =
     (if new_capacity \<le> capacity t then (1, t)
      else
        (let old_keys = keys t;
             old_key_sizes = key_sizes t;
             old_values = ht_values t;
             old_capacity = capacity t;
             t1 = t\<lparr>keys := calloc (calloc_keys al) new_capacity None,
                    key_sizes := calloc (calloc_key_sizes al) new_capacity 0,
                    ht_values := calloc (calloc_values al) new_capacity NULL\<rparr>
         in if \<not> calloc_keys al \<or> \<not> calloc_key_sizes al \<or> \<not> calloc_values al
            then (1, t1\<lparr>keys := old_keys, key_sizes := old_key_sizes, ht_values := old_values\<rparr>)
            else (0, foldl (rehash_entry old_keys old_key_sizes old_values)
                           (t1\<lparr>capacity := new_capacity, ht_size := 0\<rparr>)
                           [0..<old_capacity])))"

section \<open>Insertion (lines 171--215)\<close>

text \<open>
  The test of line 174, \<open>(float)(size + 1) / capacity > threshold\<close>. With capacity 0 the
  quotient is \<open>+infinity\<close>.
\<close>

definition load_exceeds :: "hash_table \<Rightarrow> bool" where
  "load_exceeds t =
     (if capacity t = 0 then True
      else of_nat (ht_size t + 1) / of_nat (capacity t) > resize_threshold t)"

text \<open>
  The argument of line 175, \<open>(size_t)(capacity * factor)\<close>: the product is truncated towards
  zero; C leaves the conversion undefined when the truncated value is not a \<open>size_t\<close>.
\<close>

definition grown_capacity :: "hash_table \<Rightarrow> fault + nat" where
  "grown_capacity t =
     (let p = of_nat (capacity t) * resize_factor t
      in if p \<le> - 1 \<or> 2 ^ 64 \<le> p then Inl Float_Conversion_Out_Of_Range
         else Inr (nat \<lfloor>p\<rfloor>))"

text \<open>Lines 181--214: the probe, then the update in place or the new entry.\<close>

definition insert_entry ::
  "hash_table \<Rightarrow> byte list \<Rightarrow> nat \<Rightarrow> ptr \<Rightarrow> insert_alloc \<Rightarrow> fault + (int \<times> hash_table option \<times> event list)" where
  "insert_entry t k key_size val al =
     (if capacity t = 0 then Inl Division_By_Zero
      else
        (case probe_loop t k key_size (unat (hash_table_fnv_1a k key_size) mod capacity t) 0 of
           Found index iterations \<Rightarrow>
             Inr (0, Some (t\<lparr>ht_values := (ht_values t)[index := val]\<rparr>),
                  [release_value t (ht_values t ! index)])
         | Stopped index iterations \<Rightarrow>
             (if \<not> malloc_key al then Inr (1, Some t, [])
              else Inr (0, Some (t\<lparr>keys := (keys t)[index := Some (take key_size k)],
                                    key_sizes := (key_sizes t)[index := key_size],
                                    ht_values := (ht_values t)[index := val],
                                    ht_size := ht_size t + 1\<rparr>),
                        []))))"

definition hash_table_insert ::
  "hash_table option \<Rightarrow> byte list option \<Rightarrow> nat \<Rightarrow> ptr \<Rightarrow> insert_alloc \<Rightarrow> fault + (int \<times> hash_table option \<times> event list)" where
  "hash_table_insert table key key_size val al =
     (case (table, key) of
        (Some t, Some k) \<Rightarrow>
          (if load_exceeds t then
             (case grown_capacity t of
                Inl f \<Rightarrow> Inl f
              | Inr new_capacity \<Rightarrow>
                  (case hash_table_resize t new_capacity al of
                     (rc, t1) \<Rightarrow>
                       if rc \<noteq> 0 then Inr (1, Some t1, [])
                       else insert_entry t1 k key_size val al))
           else insert_entry t k key_size val al)
      | _ \<Rightarrow> Inr (1, table, []))"

section \<open>Removal (lines 217--242)\<close>

definition hash_table_remove ::
  "hash_table option \<Rightarrow> byte list option \<Rightarrow> nat \<Rightarrow> fault + (hash_table option \<times> event list)" where
  "hash_table_remove table key key_size =
     (case (table, key) of
        (Some t, Some k) \<Rightarrow>
          (if capacity t = 0 then Inl Division_By_Zero
           else
             (case probe_loop t k key_size (unat (hash_table_fnv_1a k key_size) mod capacity t) 0 of
                Found index iterations \<Rightarrow>
                  Inr (Some (t\<lparr>keys := (keys t)[index := None],
                                key_sizes := (key_sizes t)[index := 0],
                                ht_values := (ht_values t)[index := NULL],
                                ht_size := (if ht_size t = 0 then 2 ^ 64 - 1 else ht_size t - 1)\<rparr>),
                       [Free_Key (the (keys t ! index)), release_value t (ht_values t ! index)])
              | Stopped index iterations \<Rightarrow> Inr (Some t, [])))
      | _ \<Rightarrow> Inr (table, []))"

section \<open>String-key wrappers (lines 284--307)\<close>

text \<open>\<open>strlen\<close>: the number of bytes before the first zero byte.\<close>

fun strlen :: "byte list \<Rightarrow> nat" where
  "strlen [] = 0"
| "strlen (c # cs) = (if c = 0 then 0 else Suc (strlen cs))"

definition hash_table_insert_string ::
  "hash_table option \<Rightarrow> byte list option \<Rightarrow> ptr \<Rightarrow> insert_alloc \<Rightarrow> fault + (int \<times> hash_table option \<times> event list)" where
  "hash_table_insert_string table key val al =
     (case key of
        None \<Rightarrow> Inr (1, table, [])
      | Some k \<Rightarrow> hash_table_insert table key (strlen k + 1) val al)"

definition hash_table_get_string :: "hash_table option \<Rightarrow> byte list option \<Rightarrow> fault + ptr" where
  "hash_table_get_string table key =
     (case key of
        None \<Rightarrow> Inr NULL
      | Some k \<Rightarrow> hash_table_get table key (strlen k + 1))"

definition hash_table_remove_string ::
  "hash_table option \<Rightarrow> byte list option \<Rightarrow> fault + (hash_table option \<times> event list)" where
  "hash_table_remove_string table key =
     (case key of
        None \<Rightarrow> Inr (table, [])
      | Some k \<Rightarrow> hash_table_remove table key (strlen k + 1))"

definition hash_table_contains_string :: "hash_table option \<Rightarrow> byte list option \<Rightarrow> fault + int" where
  "hash_table_contains_string table key =
     (case key of
        None \<Rightarrow> Inr 0
      | Some k \<Rightarrow> hash_table_contains table key (strlen k + 1))"

section \<open>Auxiliary notions and concrete tables\<close>

text \<open>The number of slots that hold a key.\<close>

definition occupied :: "hash_table \<Rightarrow> nat" where
  "occupied t = length (filter (\<lambda>i. keys t ! i \<noteq> None) [0..<capacity t])"

text \<open>Allocation outcomes used in the concrete runs below.\<close>

definition create_ok :: create_alloc where
  "create_ok = \<lparr>malloc_table = True, create_keys = True, create_key_sizes = True, create_values = True\<rparr>"

definition create_malloc_fails :: create_alloc where
  "create_malloc_fails = \<lparr>malloc_table = False, create_keys = True, create_key_sizes = True, create_values = True\<rparr>"

definition create_calloc_fails :: create_alloc where
  "create_calloc_fails = \<lparr>malloc_table = True, create_keys = False, create_key_sizes = True, create_values = True\<rparr>"

definition all_ok :: insert_alloc where
  "all_ok = \<lparr>calloc_keys = True, calloc_key_sizes = True, calloc_values = True, malloc_key = True\<rparr>"

definition key_malloc_fails :: insert_alloc where
  "key_malloc_fails = \<lparr>calloc_keys = True, calloc_key_sizes = True, calloc_values = True, malloc_key = False\<rparr>"

text \<open>
  String keys with their terminator: \<open>"a"\<close>, \<open>"b"\<close>, \<open>"d"\<close>, \<open>"q"\<close> and \<open>"ab"\<close>. With 16 slots
  \<open>"a"\<close> and \<open>"q"\<close> (2 bytes each) both hash to slot 4.
\<close>

definition key_a :: "byte list" where "key_a = [0x61, 0]"
definition key_b :: "byte list" where "key_b = [0x62, 0]"
definition key_d :: "byte list" where "key_d = [0x64, 0]"
definition key_q :: "byte list" where "key_q = [0x71, 0]"
definition key_ab :: "byte list" where "key_ab = [0x61, 0x62, 0]"

text \<open>
  The table of \<open>hash_table_create()\<close> and the states it goes through under
  insert \<open>"a"\<close>, insert \<open>"q"\<close>, remove \<open>"a"\<close>, insert \<open>"a"\<close>.
\<close>

definition chain0 :: hash_table where
  "chain0 = \<lparr>capacity = 16,
             keys = [None, None, None, None, None, None, None, None,
                     None, None, None, None, None, None, None, None],
             key_sizes = [0, 0, 0, 0, 0, 0, 0, 0, 0, 0, 0, 0, 0, 0, 0, 0],
             ht_values = [0, 0, 0, 0, 0, 0, 0, 0, 0, 0, 0, 0, 0, 0, 0, 0],
             ht_size = 0, resize_threshold = 1 / 2, resize_factor = 2, value_destructor = None\<rparr>"

definition chain1 :: hash_table where
  "chain1 = chain0\<lparr>keys := [None, None, None, None, Some key_a, None, None, None,
                            None, None, None, None, None, None, None, None],
                   key_sizes := [0, 0, 0, 0, 2, 0, 0, 0, 0, 0, 0, 0, 0, 0, 0, 0],
                   ht_values := [0, 0, 0, 0, 101, 0, 0, 0, 0, 0, 0, 0, 0, 0, 0, 0],
                   ht_size := 1\<rparr>"

definition chain2 :: hash_table where
  "chain2 = chain0\<lparr>keys := [None, None, None, None, Some key_a, Some key_q, None, None,
                            None, None, None, None, None, None, None, None],
                   key_sizes := [0, 0, 0, 0, 2, 2, 0, 0, 0, 0, 0, 0, 0, 0, 0, 0],
                   ht_values := [0, 0, 0, 0, 101, 102, 0, 0, 0, 0, 0, 0, 0, 0, 0, 0],
                   ht_size := 2\<rparr>"

definition chain3 :: hash_table where
  "chain3 = chain0\<lparr>keys := [None, None, None, None, None, Some key_q, None, None,
                            None, None, None, None, None, None, None, None],
                   key_sizes := [0, 0, 0, 0, 0, 2, 0, 0, 0, 0, 0, 0, 0, 0, 0, 0],
                   ht_values := [0, 0, 0, 0, 0, 102, 0, 0, 0, 0, 0, 0, 0, 0, 0, 0],
                   ht_size := 1\<rparr>"

definition chain4 :: hash_table where
  "chain4 = chain0\<lparr>keys := [None, None, None, None, Some key_a, Some key_q, None, None,
                            None, None, None, None, None, None, None, None],
                   key_sizes := [0, 0, 0, 0, 2, 2, 0, 0, 0, 0, 0, 0, 0, 0, 0, 0],
                   ht_values := [0, 0, 0, 0, 104, 102, 0, 0, 0, 0, 0, 0, 0, 0, 0, 0],
                   ht_size := 2\<rparr>"

text \<open>The default table after the insertion of \<open>"b"\<close> with a NULL value.\<close>

definition nullv1 :: hash_table where
  "nullv1 = chain0\<lparr>keys := [None, None, None, None, None, None, None, None,
                            None, None, None, None, None, None, None, Some key_b],
                   key_sizes := [0, 0, 0, 0, 0, 0, 0, 0, 0, 0, 0, 0, 0, 0, 0, 2],
                   ht_values := [0, 0, 0, 0, 0, 0, 0, 0, 0, 0, 0, 0, 0, 0, 0, 0],
                   ht_size := 1\<rparr>"

text \<open>The default table after the insertion of the two bytes \<open>ab\<close> as a binary key.\<close>

definition len1 :: hash_table where
  "len1 = chain0\<lparr>keys := [None, None, None, None, None, None, None, None,
                          None, None, Some [0x61, 0x62], None, None, None, None, None],
                 key_sizes := [0, 0, 0, 0, 0, 0, 0, 0, 0, 0, 2, 0, 0, 0, 0, 0],
                 ht_values := [0, 0, 0, 0, 0, 0, 0, 0, 0, 0, 101, 0, 0, 0, 0, 0],
                 ht_size := 1\<rparr>"

text \<open>
  The table of \<open>hash_table_create_with_parameters(2, 0.5, 2.0)\<close>; after insert \<open>"a"\<close>;
  after a second insert of \<open>"a"\<close>; and after an insert of \<open>"b"\<close> whose key allocation fails.
\<close>

definition upd0 :: hash_table where
  "upd0 = \<lparr>capacity = 2, keys = [None, None], key_sizes = [0, 0], ht_values = [0, 0],
           ht_size = 0, resize_threshold = 1 / 2, resize_factor = 2, value_destructor = None\<rparr>"

definition upd1 :: hash_table where
  "upd1 = upd0\<lparr>keys := [Some key_a, None], key_sizes := [2, 0], ht_values := [101, 0],
               ht_size := 1\<rparr>"

definition upd2 :: hash_table where
  "upd2 = upd0\<lparr>capacity := 4, keys := [Some key_a, None, None, None], key_sizes := [2, 0, 0, 0],
               ht_values := [102, 0, 0, 0], ht_size := 1\<rparr>"

definition upd1r :: hash_table where
  "upd1r = upd0\<lparr>capacity := 4, keys := [Some key_a, None, None, None], key_sizes := [2, 0, 0, 0],
                ht_values := [101, 0, 0, 0], ht_size := 1\<rparr>"

text \<open>
  The table of \<open>hash_table_create_with_parameters(2, 0.5, 1.5)\<close>, after insert \<open>"a"\<close> and
  after insert \<open>"b"\<close>.
\<close>

definition over0 :: hash_table where
  "over0 = \<lparr>capacity = 2, keys = [None, None], key_sizes = [0, 0], ht_values = [0, 0],
            ht_size = 0, resize_threshold = 1 / 2, resize_factor = 3 / 2, value_destructor = None\<rparr>"

definition over1 :: hash_table where
  "over1 = over0\<lparr>keys := [Some key_a, None], key_sizes := [2, 0], ht_values := [101, 0],
                 ht_size := 1\<rparr>"

definition over2 :: hash_table where
  "over2 = over0\<lparr>capacity := 3, keys := [None, Some key_a, Some key_b], key_sizes := [0, 2, 2],
                 ht_values := [0, 101, 102], ht_size := 2\<rparr>"

text \<open>
  The table of \<open>hash_table_create_with_parameters(2, 1.0, 2.0)\<close>, after insert \<open>"b"\<close> and
  after insert \<open>"d"\<close>: every slot holds a key.
\<close>

definition full0 :: hash_table where
  "full0 = \<lparr>capacity = 2, keys = [None, None], key_sizes = [0, 0], ht_values = [0, 0],
            ht_size = 0, resize_threshold = 1, resize_factor = 2, value_destructor = None\<rparr>"

definition full1 :: hash_table where
  "full1 = full0\<lparr>keys := [None, Some key_b], key_sizes := [0, 2], ht_values := [0, 101],
                 ht_size := 1\<rparr>"

definition full2 :: hash_table where
  "full2 = full0\<lparr>keys := [Some key_d, Some key_b], key_sizes := [2, 2], ht_values := [102, 101],
                 ht_size := 2\<rparr>"

text \<open>The table of \<open>hash_table_create_with_parameters(0, 0.5, 2.0)\<close>.\<close>

definition zero0 :: hash_table where
  "zero0 = \<lparr>capacity = 0, keys = [], key_sizes = [], ht_values = [], ht_size = 0,
            resize_threshold = 1 / 2, resize_factor = 2, value_destructor = None\<rparr>"

text \<open>What \<open>hash_table_create()\<close> returns when the allocation of the key array fails.\<close>

definition broken0 :: hash_table where
  "broken0 = chain0\<lparr>keys := []\<rparr>"

text \<open>The default table with \<open>"a"\<close> stored, before and after its value is replaced.\<close>

definition chain1u :: hash_table where
  "chain1u = chain1\<lparr>ht_values := [0, 0, 0, 0, 105, 0, 0, 0, 0, 0, 0, 0, 0, 0, 0, 0]\<rparr>"

text \<open>The table \<open>len1\<close> after the insertion of the string key \<open>"ab"\<close> (3 bytes).\<close>

definition len2 :: hash_table where
  "len2 = chain0\<lparr>keys := [None, None, None, None, None, None, None, None,
                          None, None, Some [0x61, 0x62], None, None, None, Some key_ab, None],
                 key_sizes := [0, 0, 0, 0, 0, 0, 0, 0, 0, 0, 2, 0, 0, 0, 3, 0],
                 ht_values := [0, 0, 0, 0, 0, 0, 0, 0, 0, 0, 101, 0, 0, 0, 102, 0],
                 ht_size := 2\<rparr>"


text \<open>
  A well-formed table: the three arrays have \<open>capacity\<close> cells, \<open>size\<close> counts the occupied
  slots, and the threshold is at most 1. Creation with a threshold of at most 1 establishes
  it; insertion and removal keep it (\<open>create_table_ok\<close>, \<open>insert_table_ok\<close>,
  \<open>remove_table_ok\<close>).
\<close>

definition table_ok :: "hash_table \<Rightarrow> bool" where
  "table_ok t =
     (length (keys t) = capacity t \<and> length (key_sizes t) = capacity t \<and>
      length (ht_values t) = capacity t \<and> ht_size t = occupied t \<and> resize_threshold t \<le> 1)"

text \<open>
  The invariant of the rehash loop: the new arrays have \<open>capacity\<close> cells, \<open>size\<close> counts the
  occupied slots, and the entries still to be moved fit.
\<close>

definition rehash_inv :: "hash_table \<Rightarrow> nat \<Rightarrow> bool" where
  "rehash_inv t todo =
     (length (keys t) = capacity t \<and> length (key_sizes t) = capacity t \<and>
      length (ht_values t) = capacity t \<and> ht_size t = occupied t \<and>
      occupied t + todo < capacity t)"

text \<open>Notions for the transparency of growth.\<close>

text \<open>The slot at which the scan for the key stored in slot \<open>p\<close> starts.\<close>

definition home :: "hash_table \<Rightarrow> nat \<Rightarrow> nat" where
  "home t p = unat (hash_table_fnv_1a (the (keys t ! p)) (key_sizes t ! p)) mod capacity t"

text \<open>The probe-chain invariant: every stored key is reached from its start slot through occupied
  slots only, in fewer than \<open>capacity\<close> steps.\<close>

definition chain_ok :: "hash_table \<Rightarrow> bool" where
  "chain_ok t =
     (\<forall>p<capacity t. keys t ! p \<noteq> None \<longrightarrow>
        (\<exists>d<capacity t. p = (home t p + d) mod capacity t \<and>
           (\<forall>e<d. keys t ! ((home t p + e) mod capacity t) \<noteq> None)))"

text \<open>The test of lines 101--102 for slot \<open>p\<close>, together with the loop condition on the key.\<close>

definition slot_matches :: "hash_table \<Rightarrow> nat \<Rightarrow> byte list \<Rightarrow> nat \<Rightarrow> bool" where
  "slot_matches t p key key_size =
     (keys t ! p \<noteq> None \<and> key_sizes t ! p = key_size \<and>
      memcmp (the (keys t ! p)) key key_size = 0)"

text \<open>What slot \<open>p\<close> holds in the three arrays.\<close>

definition entry :: "hash_table \<Rightarrow> nat \<Rightarrow> byte list option \<times> nat \<times> ptr" where
  "entry t p = (keys t ! p, key_sizes t ! p, ht_values t ! p)"

text \<open>The rehash loop has moved the old slots in \<open>seen\<close>: every occupied new slot holds an old entry of
  \<open>seen\<close>, and every old entry of \<open>seen\<close> is in some new slot.\<close>

definition moved ::
  "byte list option list \<Rightarrow> nat list \<Rightarrow> ptr list \<Rightarrow> nat set \<Rightarrow> hash_table \<Rightarrow> bool" where
  "moved ok oks ov seen t =
     ((\<forall>p<capacity t. keys t ! p \<noteq> None \<longrightarrow>
         (\<exists>i\<in>seen. ok ! i \<noteq> None \<and> entry t p = (ok ! i, oks ! i, ov ! i))) \<and>
      (\<forall>i\<in>seen. ok ! i \<noteq> None \<longrightarrow>
         (\<exists>p<capacity t. entry t p = (ok ! i, oks ! i, ov ! i))))"

text \<open>Every stored key buffer has at least as many bytes as its recorded length.\<close>

definition keys_valid :: "hash_table \<Rightarrow> bool" where
  "keys_valid t = (\<forall>p<capacity t. \<forall>k. keys t ! p = Some k \<longrightarrow> key_sizes t ! p \<le> length k)"

text \<open>No two slots hold the same key (same length, same bytes).\<close>

definition keys_distinct :: "hash_table \<Rightarrow> bool" where
  "keys_distinct t =
     (\<forall>i<capacity t. \<forall>j<capacity t.
        keys t ! i \<noteq> None \<and> keys t ! j \<noteq> None \<and> key_sizes t ! i = key_sizes t ! j \<and>
        take (key_sizes t ! i) (the (keys t ! i)) = take (key_sizes t ! j) (the (keys t ! j))
        \<longrightarrow> i = j)"

text \<open>
  A sound table: well formed, with the probe-chain invariant, valid key buffers and no
  duplicate key. Creation gives a sound table and insertion keeps it sound
  (\<open>create_sound\<close>, \<open>insert_sound\<close>); removal does not (\<open>remove_breaks_chain\<close>).
\<close>

definition sound :: "hash_table \<Rightarrow> bool" where
  "sound t = (table_ok t \<and> chain_ok t \<and> keys_valid t \<and> keys_distinct t)"

section \<open>Evaluation rules\<close>

declare probe_loop.simps [simp del]
declare rehash_probe.simps [simp del]

lemma replicate_numeral: "replicate (numeral k) x = x # replicate (pred_numeral k) x"
  by (simp add: numeral_eq_Suc)

lemma memcmp_numeral:
  "memcmp (a # as) (b # bs) (numeral k) =
     (if a = b then memcmp as bs (pred_numeral k) else if a < b then - 1 else 1)"
  by (simp add: numeral_eq_Suc)

lemmas eval_defs =
  hash_table_create_def hash_table_create_with_destructor_def hash_table_create_with_parameters_def
  hash_table_create_with_parameters_and_destructor_def
  HASH_TABLE_DEFAULT_INITIAL_CAPACITY_def HASH_TABLE_DEFAULT_RESIZE_THRESHOLD_def
  HASH_TABLE_DEFAULT_RESIZE_FACTOR_def calloc_def NULL_def
  hash_table_insert_string_def hash_table_get_string_def hash_table_remove_string_def
  hash_table_contains_string_def
  hash_table_insert_def insert_entry_def hash_table_get_def hash_table_contains_def
  hash_table_remove_def load_exceeds_def grown_capacity_def hash_table_resize_def
  rehash_entry_def release_value_def hash_table_fnv_1a_def
  probe_loop.simps rehash_probe.simps replicate_numeral memcmp_numeral upt_conv_Cons
  create_ok_def create_malloc_fails_def create_calloc_fails_def all_ok_def key_malloc_fails_def
  key_a_def key_b_def key_d_def key_q_def key_ab_def

lemmas state_defs =
  chain0_def chain1_def chain2_def chain3_def chain4_def nullv1_def len1_def
  upd0_def upd1_def upd2_def upd1r_def over0_def over1_def over2_def
  full0_def full1_def full2_def zero0_def broken0_def chain1u_def len2_def

section \<open>The probe scan\<close>

lemma probe_loop_stop:
  "keys t ! index = None \<or> \<not> iterations < capacity t \<Longrightarrow>
     probe_loop t key key_size index iterations = Stopped index iterations"
  by (subst probe_loop.simps) auto

lemma probe_loop_hit:
  "keys t ! index \<noteq> None \<Longrightarrow> iterations < capacity t \<Longrightarrow>
   key_sizes t ! index = key_size \<Longrightarrow> memcmp (the (keys t ! index)) key key_size = 0 \<Longrightarrow>
     probe_loop t key key_size index iterations = Found index iterations"
  by (subst probe_loop.simps) auto

lemma probe_loop_step:
  "keys t ! index \<noteq> None \<Longrightarrow> iterations < capacity t \<Longrightarrow>
   \<not> (key_sizes t ! index = key_size \<and> memcmp (the (keys t ! index)) key key_size = 0) \<Longrightarrow>
     probe_loop t key key_size index iterations =
     probe_loop t key key_size ((index + 1) mod capacity t) (iterations + 1)"
  by (subst probe_loop.simps) auto

lemma probe_iterations_bound:
  "probe_iterations (probe_loop t key key_size index iterations) \<le> max iterations (capacity t)"
proof (induction t key key_size index iterations rule: probe_loop.induct)
  case (1 t key key_size index iterations)
  show ?case
  proof (cases "keys t ! index \<noteq> None \<and> iterations < capacity t")
    case False
    then show ?thesis by (simp add: probe_loop_stop)
  next
    case True
    show ?thesis
    proof (cases "key_sizes t ! index = key_size \<and> memcmp (the (keys t ! index)) key key_size = 0")
      case hit: True
      with True show ?thesis by (simp add: probe_loop_hit)
    next
      case miss: False
      with True "1.IH"[OF True miss] show ?thesis by (simp add: probe_loop_step)
    qed
  qed
qed

lemma probe_Found_slot:
  "probe_loop t key key_size index iterations = Found i n \<Longrightarrow>
     keys t ! i \<noteq> None \<and> key_sizes t ! i = key_size \<and>
     memcmp (the (keys t ! i)) key key_size = 0 \<and> n < capacity t"
proof (induction t key key_size index iterations rule: probe_loop.induct)
  case (1 t key key_size index iterations)
  show ?case
  proof (cases "keys t ! index \<noteq> None \<and> iterations < capacity t")
    case False
    with "1.prems" show ?thesis by (simp add: probe_loop_stop)
  next
    case True
    show ?thesis
    proof (cases "key_sizes t ! index = key_size \<and> memcmp (the (keys t ! index)) key key_size = 0")
      case hit: True
      with True "1.prems" show ?thesis by (simp add: probe_loop_hit)
    next
      case miss: False
      with True "1.prems" "1.IH"[OF True miss] show ?thesis by (simp add: probe_loop_step)
    qed
  qed
qed

lemma probe_index_bound:
  "index < capacity t \<Longrightarrow>
     (case probe_loop t key key_size index iterations of
        Found i n \<Rightarrow> i < capacity t | Stopped i n \<Rightarrow> i < capacity t)"
proof (induction t key key_size index iterations rule: probe_loop.induct)
  case (1 t key key_size index iterations)
  show ?case
  proof (cases "keys t ! index \<noteq> None \<and> iterations < capacity t")
    case False
    with "1.prems" show ?thesis by (simp add: probe_loop_stop)
  next
    case True
    show ?thesis
    proof (cases "key_sizes t ! index = key_size \<and> memcmp (the (keys t ! index)) key key_size = 0")
      case hit: True
      with True "1.prems" show ?thesis by (simp add: probe_loop_hit)
    next
      case miss: False
      have "(index + 1) mod capacity t < capacity t" using "1.prems" by simp
      with True miss "1.IH"[OF True miss] show ?thesis by (simp add: probe_loop_step)
    qed
  qed
qed

lemma memcmp_eq_take:
  "n \<le> length a \<Longrightarrow> n \<le> length b \<Longrightarrow> (memcmp a b n = 0) = (take n a = take n b)"
  by (induction a b n rule: memcmp.induct) auto


text \<open>A scan for a key that no slot holds ends at the loop condition.\<close>

lemma probe_key_not_stored:
  assumes idx: "index < capacity t"
      and abs: "\<forall>i<capacity t. keys t ! i \<noteq> None \<longrightarrow>
                  \<not> (key_sizes t ! i = key_size \<and> memcmp (the (keys t ! i)) key key_size = 0)"
  shows "\<exists>i n. probe_loop t key key_size index iterations = Stopped i n"
proof (cases "probe_loop t key key_size index iterations")
  case (Found i n)
  from probe_index_bound[OF idx, of key key_size iterations] Found have "i < capacity t" by simp
  with probe_Found_slot[OF Found] abs show ?thesis by blast
next
  case (Stopped i n)
  then show ?thesis by blast
qed

section \<open>Growth and insertion\<close>

lemma rehash_entry_fields:
  "capacity (rehash_entry ok oks ov t i) = capacity t"
  "resize_threshold (rehash_entry ok oks ov t i) = resize_threshold t"
  "resize_factor (rehash_entry ok oks ov t i) = resize_factor t"
  "value_destructor (rehash_entry ok oks ov t i) = value_destructor t"
  "length (keys (rehash_entry ok oks ov t i)) = length (keys t)"
  "length (key_sizes (rehash_entry ok oks ov t i)) = length (key_sizes t)"
  "length (ht_values (rehash_entry ok oks ov t i)) = length (ht_values t)"
  by (simp_all add: rehash_entry_def Let_def split: option.splits)

lemma rehash_loop_fields:
  "capacity (foldl (rehash_entry ok oks ov) t is) = capacity t"
  "resize_threshold (foldl (rehash_entry ok oks ov) t is) = resize_threshold t"
  "resize_factor (foldl (rehash_entry ok oks ov) t is) = resize_factor t"
  "value_destructor (foldl (rehash_entry ok oks ov) t is) = value_destructor t"
  "length (keys (foldl (rehash_entry ok oks ov) t is)) = length (keys t)"
  "length (key_sizes (foldl (rehash_entry ok oks ov) t is)) = length (key_sizes t)"
  "length (ht_values (foldl (rehash_entry ok oks ov) t is)) = length (ht_values t)"
  by (induction "is" arbitrary: t) (simp_all add: rehash_entry_fields)

lemma rehash_entry_size:
  "ht_size (rehash_entry ok oks ov t i) = ht_size t + (if ok ! i \<noteq> None then 1 else 0)"
  by (simp add: rehash_entry_def Let_def split: option.splits)

lemma rehash_loop_size:
  "ht_size (foldl (rehash_entry ok oks ov) t is) =
     ht_size t + length (filter (\<lambda>i. ok ! i \<noteq> None) is)"
  by (induction "is" arbitrary: t) (simp_all add: rehash_entry_size)

text \<open>
  A successful growth: the new capacity is the requested one and greater than the old
  one, \<open>size\<close> is recounted from the old slots, the parameters are kept.
\<close>

lemma resize_success:
  assumes "hash_table_resize t new_capacity al = (0, t1)"
  shows "capacity t < new_capacity" "capacity t1 = new_capacity" "ht_size t1 = occupied t"
    "resize_threshold t1 = resize_threshold t" "resize_factor t1 = resize_factor t"
    "value_destructor t1 = value_destructor t"
  using assms
  by (auto simp: hash_table_resize_def Let_def rehash_loop_fields rehash_loop_size occupied_def
           split: if_splits)

text \<open>A failed growth, whatever its reason, hands back the table it was given.\<close>

lemma resize_failure:
  assumes "hash_table_resize t new_capacity al = (rc, t1)" "rc \<noteq> 0"
  shows "t1 = t"
  using assms
  by (auto simp: hash_table_resize_def Let_def split: if_splits)

lemma insert_entry_success:
  assumes "insert_entry t key key_size val al = Inr (rc, Some t', ev)"
  shows "capacity t' = capacity t" "ht_size t' \<le> ht_size t + 1"
    "resize_threshold t' = resize_threshold t" "0 < capacity t"
    "ev \<noteq> [] \<Longrightarrow> ht_size t' = ht_size t"
  using assms
  by (auto simp: insert_entry_def split: if_splits probe_result.splits)

text \<open>The two ways in which an insertion succeeds: without growth, and after one growth.\<close>

lemma insert_cases:
  assumes "hash_table_insert (Some t) (Some key) key_size val al = Inr (0, Some t', ev)"
  obtains (keep) "\<not> load_exceeds t" "insert_entry t key key_size val al = Inr (0, Some t', ev)"
        | (grow) n t1 where "load_exceeds t" "grown_capacity t = Inr n"
            "hash_table_resize t n al = (0, t1)"
            "insert_entry t1 key key_size val al = Inr (0, Some t', ev)"
  using assms
  by (auto simp: hash_table_insert_def split: if_splits sum.splits prod.splits)

text \<open>
  When the growth that line 174 asks for fails in \<open>calloc\<close>, the insertion fails and the table
  is the one before the call; no value is released.
\<close>

lemma insert_growth_alloc_failure:
  assumes "load_exceeds t" "grown_capacity t = Inr n"
      and "\<not> calloc_keys al \<or> \<not> calloc_key_sizes al \<or> \<not> calloc_values al"
  shows "hash_table_insert (Some t) (Some key) key_size val al = Inr (1, Some t, [])"
  using assms
  by (auto simp: hash_table_insert_def hash_table_resize_def Let_def)

text \<open>When no growth is asked for and the key allocation fails, the table is unchanged as well.\<close>

lemma insert_key_alloc_failure_no_growth:
  assumes "\<not> load_exceeds t" "\<not> malloc_key al"
      and "hash_table_insert (Some t) (Some key) key_size val al = Inr (rc, t', ev)" "rc \<noteq> 0"
  shows "t' = Some t \<and> ev = []"
  using assms
  by (auto simp: hash_table_insert_def insert_entry_def split: if_splits probe_result.splits)

section \<open>Key lengths under growth\<close>




section \<open>Concrete runs\<close>

text \<open>
  Each lemma is one call of the API on an explicit table, evaluated by rewriting. Keys are
  passed as the tests pass them: the string with its terminator and \<open>strlen + 1\<close> as length.
\<close>

lemma chain_create: "hash_table_create create_ok = Inr (Some chain0)"
  by (simp add: eval_defs state_defs)

lemma chain_insert_a:
  "hash_table_insert (Some chain0) (Some key_a) 2 101 all_ok = Inr (0, Some chain1, [])"
  by (simp add: eval_defs state_defs)

lemma chain_insert_q:
  "hash_table_insert (Some chain1) (Some key_q) 2 102 all_ok = Inr (0, Some chain2, [])"
  by (simp add: eval_defs state_defs)

lemma chain_get_q_before: "hash_table_get (Some chain2) (Some key_q) 2 = Inr 102"
  by (simp add: eval_defs state_defs)

lemma chain_remove_a:
  "hash_table_remove (Some chain2) (Some key_a) 2 = Inr (Some chain3, [Free_Key key_a, Call_Free 101])"
  by (simp add: eval_defs state_defs)

lemma chain_get_q_after: "hash_table_get (Some chain3) (Some key_q) 2 = Inr NULL"
  by (simp add: eval_defs state_defs)

lemma chain_contains_q_after: "hash_table_contains (Some chain3) (Some key_q) 2 = Inr 0"
  by (simp add: eval_defs state_defs)

lemma chain_remove_q: "hash_table_remove (Some chain3) (Some key_q) 2 = Inr (Some chain3, [])"
  by (simp add: eval_defs state_defs)

lemma chain_insert_a_again:
  "hash_table_insert (Some chain3) (Some key_a) 2 104 all_ok = Inr (0, Some chain4, [])"
  by (simp add: eval_defs state_defs)

lemma chain_get_q_again: "hash_table_get (Some chain4) (Some key_q) 2 = Inr 102"
  by (simp add: eval_defs state_defs)

lemma chain_contains_q_again: "hash_table_contains (Some chain4) (Some key_q) 2 = Inr 1"
  by (simp add: eval_defs state_defs)

lemma nullv_insert:
  "hash_table_insert (Some chain0) (Some key_b) 2 NULL all_ok = Inr (0, Some nullv1, [])"
  by (simp add: eval_defs state_defs)

lemma nullv_contains: "hash_table_contains (Some nullv1) (Some key_b) 2 = Inr 0"
  by (simp add: eval_defs state_defs)

lemma len_insert:
  "hash_table_insert (Some chain0) (Some key_ab) 2 101 all_ok = Inr (0, Some len1, [])"
  by (simp add: eval_defs state_defs)

lemma upd_create: "hash_table_create_with_parameters 2 (1 / 2) 2 create_ok = Inr (Some upd0)"
  by (simp add: eval_defs state_defs)

lemma upd_insert_a:
  "hash_table_insert (Some upd0) (Some key_a) 2 101 all_ok = Inr (0, Some upd1, [])"
  by (simp add: eval_defs state_defs)


lemma upd_insert_b_fails:
  "hash_table_insert (Some upd1) (Some key_b) 2 102 key_malloc_fails = Inr (1, Some upd1r, [])"
  by (simp add: eval_defs state_defs)




lemma full_create: "hash_table_create_with_parameters 2 1 2 create_ok = Inr (Some full0)"
  by (simp add: eval_defs state_defs)

lemma full_insert_b:
  "hash_table_insert (Some full0) (Some key_b) 2 101 all_ok = Inr (0, Some full1, [])"
  by (simp add: eval_defs state_defs)

lemma full_insert_d:
  "hash_table_insert (Some full1) (Some key_d) 2 102 all_ok = Inr (0, Some full2, [])"
  by (simp add: eval_defs state_defs)

lemma full_probe_a: "probe_loop full2 key_a 2 (unat (hash_table_fnv_1a key_a 2) mod capacity full2) 0 = Stopped 0 2"
  by (simp add: eval_defs state_defs)

lemma zero_create: "hash_table_create_with_parameters 0 (1 / 2) 2 create_ok = Inr (Some zero0)"
  by (simp add: eval_defs state_defs)

lemma zero_insert:
  "hash_table_insert (Some zero0) (Some key_a) 2 101 all_ok = Inr (1, Some zero0, [])"
  by (simp add: eval_defs state_defs)







section \<open>Absent keys\<close>

text \<open>
  When no slot holds the key, lookup answers NULL, contains answers 0 and remove changes
  nothing and releases nothing.
\<close>

lemma absent_key:
  assumes cap: "0 < capacity t"
      and abs: "\<forall>i<capacity t. keys t ! i \<noteq> None \<longrightarrow>
                  \<not> (key_sizes t ! i = key_size \<and> memcmp (the (keys t ! i)) key key_size = 0)"
  shows "hash_table_get (Some t) (Some key) key_size = Inr NULL"
    and "hash_table_contains (Some t) (Some key) key_size = Inr 0"
    and "hash_table_remove (Some t) (Some key) key_size = Inr (Some t, [])"
proof -
  from cap have "unat (hash_table_fnv_1a key key_size) mod capacity t < capacity t" by simp
  from probe_key_not_stored[OF this abs, of 0]
  obtain i n where p: "probe_loop t key key_size (unat (hash_table_fnv_1a key key_size) mod capacity t) 0 = Stopped i n"
    by blast
  show g: "hash_table_get (Some t) (Some key) key_size = Inr NULL"
    using cap p by (simp add: hash_table_get_def)
  show "hash_table_contains (Some t) (Some key) key_size = Inr 0"
    using g by (simp add: hash_table_contains_def)
  show "hash_table_remove (Some t) (Some key) key_size = Inr (Some t, [])"
    using cap p by (simp add: hash_table_remove_def)
qed

section \<open>Creation\<close>

text \<open>When every allocation succeeds, the four creation forms return a table of the asked
  capacity with three arrays of that length, no key, and size 0.\<close>

lemma create_success:
  assumes "malloc_table al" "create_keys al" "create_key_sizes al" "create_values al"
  shows "hash_table_create_with_parameters_and_destructor cap threshold factor destructor al =
           Inr (Some \<lparr>capacity = cap, keys = replicate cap None, key_sizes = replicate cap 0,
                      ht_values = replicate cap NULL, ht_size = 0, resize_threshold = threshold,
                      resize_factor = factor, value_destructor = destructor\<rparr>)"
    and "hash_table_create_with_parameters cap threshold factor al =
           Inr (Some \<lparr>capacity = cap, keys = replicate cap None, key_sizes = replicate cap 0,
                      ht_values = replicate cap NULL, ht_size = 0, resize_threshold = threshold,
                      resize_factor = factor, value_destructor = None\<rparr>)"
    and "hash_table_create_with_destructor destructor al =
           Inr (Some \<lparr>capacity = 16, keys = replicate 16 None, key_sizes = replicate 16 0,
                      ht_values = replicate 16 NULL, ht_size = 0, resize_threshold = 1 / 2,
                      resize_factor = 2, value_destructor = destructor\<rparr>)"
    and "hash_table_create al =
           Inr (Some \<lparr>capacity = 16, keys = replicate 16 None, key_sizes = replicate 16 0,
                      ht_values = replicate 16 NULL, ht_size = 0, resize_threshold = 1 / 2,
                      resize_factor = 2, value_destructor = None\<rparr>)"
  using assms
  by (simp_all add: hash_table_create_def hash_table_create_with_destructor_def
        hash_table_create_with_parameters_def hash_table_create_with_parameters_and_destructor_def
        HASH_TABLE_DEFAULT_INITIAL_CAPACITY_def HASH_TABLE_DEFAULT_RESIZE_THRESHOLD_def
        HASH_TABLE_DEFAULT_RESIZE_FACTOR_def calloc_def)

section \<open>Well-formed tables\<close>

lemma occupied_card: "occupied t = card {i. i < capacity t \<and> keys t ! i \<noteq> None}"
proof -
  have "occupied t = card {i. i < length [0..<capacity t] \<and> keys t ! ([0..<capacity t] ! i) \<noteq> None}"
    unfolding occupied_def by (rule length_filter_conv_card)
  also have "{i. i < length [0..<capacity t] \<and> keys t ! ([0..<capacity t] ! i) \<noteq> None}
      = {i. i < capacity t \<and> keys t ! i \<noteq> None}"
    by auto
  finally show ?thesis .
qed

lemma occupied_le: "occupied t \<le> capacity t"
  unfolding occupied_def using length_filter_le[of _ "[0..<capacity t]"] by simp

lemma empty_slot_exists:
  assumes "occupied t < capacity t"
  shows "\<exists>j<capacity t. keys t ! j = None"
proof (rule ccontr)
  assume "\<not> (\<exists>j<capacity t. keys t ! j = None)"
  then have "{i. i < capacity t \<and> keys t ! i \<noteq> None} = {..<capacity t}" by auto
  then have "occupied t = capacity t" by (simp add: occupied_card)
  with assms show False by simp
qed

lemma occupied_store:
  assumes "i < capacity t" "i < length (keys t)" "keys t ! i = None"
    and "keys t' = (keys t)[i := Some k]" "capacity t' = capacity t"
  shows "occupied t' = occupied t + 1"
proof -
  have "{j. j < capacity t' \<and> keys t' ! j \<noteq> None} = insert i {j. j < capacity t \<and> keys t ! j \<noteq> None}"
    using assms by (auto simp: nth_list_update)
  moreover have "i \<notin> {j. j < capacity t \<and> keys t ! j \<noteq> None}" using assms by simp
  moreover have "finite {j. j < capacity t \<and> keys t ! j \<noteq> None}" by simp
  ultimately show ?thesis by (simp add: occupied_card)
qed

lemma occupied_clear:
  assumes "i < capacity t" "i < length (keys t)" "keys t ! i \<noteq> None"
    and "keys t' = (keys t)[i := None]" "capacity t' = capacity t"
  shows "occupied t' + 1 = occupied t"
proof -
  have "{j. j < capacity t' \<and> keys t' ! j \<noteq> None} = {j. j < capacity t \<and> keys t ! j \<noteq> None} - {i}"
    using assms by (auto simp: nth_list_update)
  moreover have "i \<in> {j. j < capacity t \<and> keys t ! j \<noteq> None}" using assms by simp
  moreover have "finite {j. j < capacity t \<and> keys t ! j \<noteq> None}" by simp
  ultimately have "card {j. j < capacity t' \<and> keys t' ! j \<noteq> None} + 1
      = card {j. j < capacity t \<and> keys t ! j \<noteq> None}"
    using card_Suc_Diff1[of "{j. j < capacity t \<and> keys t ! j \<noteq> None}" i] by simp
  then show ?thesis by (simp add: occupied_card)
qed

lemma occupied_same_keys:
  "keys t' = keys t \<Longrightarrow> capacity t' = capacity t \<Longrightarrow> occupied t' = occupied t"
  by (simp add: occupied_def)

text \<open>With an empty slot \<open>d\<close> steps ahead and \<open>iterations + d < capacity\<close>, the scan ends on a
  match or on an empty slot, before the counter reaches the capacity.\<close>

lemma probe_reaches_empty:
  assumes "iterations + d < capacity t" "keys t ! ((index + d) mod capacity t) = None"
    and "index < capacity t"
  shows "case probe_loop t key key_size index iterations of
           Found i n \<Rightarrow> True
         | Stopped i n \<Rightarrow> keys t ! i = None \<and> n < capacity t"
  using assms
proof (induction d arbitrary: index iterations)
  case 0
  then have "keys t ! index = None" by simp
  with 0 show ?case by (simp add: probe_loop_stop)
next
  case (Suc d)
  show ?case
  proof (cases "keys t ! index = None")
    case True
    with Suc.prems show ?thesis by (simp add: probe_loop_stop)
  next
    case occ: False
    have it: "iterations < capacity t" using Suc.prems by simp
    show ?thesis
    proof (cases "key_sizes t ! index = key_size \<and> memcmp (the (keys t ! index)) key key_size = 0")
      case True
      with occ it show ?thesis by (simp add: probe_loop_hit)
    next
      case False
      have a: "(iterations + 1) + d < capacity t" using Suc.prems by simp
      have "((index + 1) mod capacity t + d) mod capacity t = (index + Suc d) mod capacity t"
        by (simp add: mod_add_left_eq)
      with Suc.prems have b: "keys t ! (((index + 1) mod capacity t + d) mod capacity t) = None"
        by simp
      have c: "(index + 1) mod capacity t < capacity t" using Suc.prems by simp
      from Suc.IH[OF a b c] occ it False show ?thesis by (simp add: probe_loop_step)
    qed
  qed
qed

lemma empty_slot_ahead:
  assumes "j < (c::nat)" "s < c"
  shows "(s + (j + c - s) mod c) mod c = j" "(j + c - s) mod c < c"
proof -
  have "(s + (j + c - s) mod c) mod c = (s + (j + c - s)) mod c" by (simp add: mod_add_right_eq)
  also have "s + (j + c - s) = j + c" using assms by simp
  also have "(j + c) mod c = j" using assms by simp
  finally show "(s + (j + c - s) mod c) mod c = j" .
  show "(j + c - s) mod c < c" using assms by simp
qed

lemma probe_not_full:
  assumes nf: "occupied t < capacity t" and idx: "index < capacity t"
  shows "case probe_loop t key key_size index 0 of
           Found i n \<Rightarrow> True
         | Stopped i n \<Rightarrow> keys t ! i = None \<and> n < capacity t"
proof -
  from empty_slot_exists[OF nf] obtain j where j: "j < capacity t" "keys t ! j = None" by blast
  from empty_slot_ahead[OF j(1) idx] j(2)
  have "0 + (j + capacity t - index) mod capacity t < capacity t"
    "keys t ! ((index + (j + capacity t - index) mod capacity t) mod capacity t) = None"
    by simp_all
  from probe_reaches_empty[OF this idx] show ?thesis .
qed

lemma rehash_probe_reaches_empty:
  assumes "iterations + d < capacity t" "keys t ! ((index + d) mod capacity t) = None"
    and "index < capacity t"
  shows "keys t ! rehash_probe t index iterations = None \<and> rehash_probe t index iterations < capacity t"
  using assms
proof (induction d arbitrary: index iterations)
  case 0
  then have "keys t ! index = None" by simp
  with 0 show ?case by (subst (1 2) rehash_probe.simps) simp
next
  case (Suc d)
  show ?case
  proof (cases "keys t ! index = None")
    case True
    with Suc.prems show ?thesis by (subst (1 2) rehash_probe.simps) simp
  next
    case occ: False
    have it: "iterations < capacity t" using Suc.prems by simp
    have a: "(iterations + 1) + d < capacity t" using Suc.prems by simp
    have "((index + 1) mod capacity t + d) mod capacity t = (index + Suc d) mod capacity t"
      by (simp add: mod_add_left_eq)
    with Suc.prems have b: "keys t ! (((index + 1) mod capacity t + d) mod capacity t) = None"
      by simp
    have c: "(index + 1) mod capacity t < capacity t" using Suc.prems by simp
    have "rehash_probe t index iterations = rehash_probe t ((index + 1) mod capacity t) (iterations + 1)"
      using occ it by (subst rehash_probe.simps) simp
    with Suc.IH[OF a b c] show ?thesis by simp
  qed
qed

lemma rehash_probe_not_full:
  assumes nf: "occupied t < capacity t" and idx: "index < capacity t"
  shows "keys t ! rehash_probe t index 0 = None \<and> rehash_probe t index 0 < capacity t"
proof -
  from empty_slot_exists[OF nf] obtain j where j: "j < capacity t" "keys t ! j = None" by blast
  from empty_slot_ahead[OF j(1) idx] j(2)
  have "0 + (j + capacity t - index) mod capacity t < capacity t"
    "keys t ! ((index + (j + capacity t - index) mod capacity t) mod capacity t) = None"
    by simp_all
  from rehash_probe_reaches_empty[OF this idx] show ?thesis .
qed

lemma rehash_entry_inv:
  assumes "rehash_inv t (Suc todo)"
  shows "rehash_inv (rehash_entry ok oks ov t i) todo"
proof (cases "ok ! i")
  case None
  with assms show ?thesis by (simp add: rehash_entry_def rehash_inv_def)
next
  case (Some k)
  define index where "index = rehash_probe t (unat (hash_table_fnv_1a k (oks ! i)) mod capacity t) 0"
  have r: "rehash_entry ok oks ov t i =
      t\<lparr>keys := (keys t)[index := Some k], key_sizes := (key_sizes t)[index := oks ! i],
        ht_values := (ht_values t)[index := ov ! i], ht_size := ht_size t + 1\<rparr>"
    using Some by (simp add: rehash_entry_def index_def Let_def)
  from assms have nf: "occupied t < capacity t" and cap: "0 < capacity t"
    by (simp_all add: rehash_inv_def)
  from cap have "unat (hash_table_fnv_1a k (oks ! i)) mod capacity t < capacity t" by simp
  from rehash_probe_not_full[OF nf this] have e: "keys t ! index = None" "index < capacity t"
    by (simp_all add: index_def)
  have "occupied (rehash_entry ok oks ov t i) = occupied t + 1"
    using e assms by (intro occupied_store[where i = index and k = k]) (simp_all add: r rehash_inv_def)
  with assms show ?thesis by (simp add: rehash_inv_def r)
qed

lemma rehash_loop_inv:
  assumes "rehash_inv t (length is)"
  shows "rehash_inv (foldl (rehash_entry ok oks ov) t is) 0"
  using assms
proof (induction "is" arbitrary: t)
  case Nil
  then show ?case by simp
next
  case (Cons i "is")
  from Cons.prems have "rehash_inv (rehash_entry ok oks ov t i) (length is)"
    by (intro rehash_entry_inv) simp
  from Cons.IH[OF this] show ?case by simp
qed

lemma occupied_replicate:
  "keys t = replicate n None \<Longrightarrow> capacity t = n \<Longrightarrow> occupied t = 0"
  by (simp add: occupied_def)

text \<open>A successful growth of a table gives a well-formed table that is not full.\<close>

lemma resize_ok:
  assumes r: "hash_table_resize t n al = (0, t1)" and thr: "resize_threshold t \<le> 1"
  shows "table_ok t1" "occupied t1 < capacity t1"
proof -
  let ?t0 = "t\<lparr>keys := replicate n None, key_sizes := replicate n 0, ht_values := replicate n NULL,
               capacity := n, ht_size := 0\<rparr>"
  from r have ok: "calloc_keys al" "calloc_key_sizes al" "calloc_values al" "capacity t < n"
    by (auto simp: hash_table_resize_def Let_def split: if_splits)
  with r have t1: "t1 = foldl (rehash_entry (keys t) (key_sizes t) (ht_values t)) ?t0 [0..<capacity t]"
    by (simp add: hash_table_resize_def Let_def calloc_def)
  have "occupied ?t0 = 0" by (rule occupied_replicate) simp_all
  with ok(4) have "rehash_inv ?t0 (length [0..<capacity t])" by (simp add: rehash_inv_def)
  from rehash_loop_inv[OF this] have i: "rehash_inv t1 0" unfolding t1 .
  from i resize_success(4)[OF r] thr show "table_ok t1" by (simp add: rehash_inv_def table_ok_def)
  from i show "occupied t1 < capacity t1" by (simp add: rehash_inv_def)
qed

lemma insert_entry_ok:
  assumes ok: "table_ok t" and nf: "occupied t < capacity t"
      and ins: "insert_entry t key key_size val al = Inr (rc, Some t', ev)"
  shows "table_ok t'"
proof -
  let ?s = "unat (hash_table_fnv_1a key key_size) mod capacity t"
  from nf have cap: "0 < capacity t" by simp
  then have s: "?s < capacity t" by simp
  show ?thesis
  proof (cases "probe_loop t key key_size ?s 0")
    case (Found i n)
    with ins cap have t': "t' = t\<lparr>ht_values := (ht_values t)[i := val]\<rparr>"
      by (simp add: insert_entry_def)
    have "occupied t' = occupied t" by (rule occupied_same_keys) (simp_all add: t')
    with ok show ?thesis by (simp add: table_ok_def t')
  next
    case (Stopped i n)
    from probe_not_full[OF nf s, of key key_size] Stopped have e: "keys t ! i = None" by simp
    from probe_index_bound[OF s, of key key_size 0] Stopped have i: "i < capacity t" by simp
    show ?thesis
    proof (cases "malloc_key al")
      case False
      with ins cap Stopped have "t' = t" by (simp add: insert_entry_def)
      with ok show ?thesis by simp
    next
      case True
      with ins cap Stopped have t': "t' = t\<lparr>keys := (keys t)[i := Some (take key_size key)],
                                    key_sizes := (key_sizes t)[i := key_size],
                                    ht_values := (ht_values t)[i := val],
                                    ht_size := ht_size t + 1\<rparr>"
        by (simp add: insert_entry_def)
      have "occupied t' = occupied t + 1"
        using e i ok by (intro occupied_store[where i = i and k = "take key_size key"])
          (simp_all add: t' table_ok_def)
      with ok show ?thesis by (simp add: table_ok_def t')
    qed
  qed
qed

lemma load_not_exceeded_not_full:
  assumes "table_ok t" "\<not> load_exceeds t"
  shows "occupied t < capacity t"
proof -
  from assms(2) have cap: "0 < capacity t"
    and le: "of_nat (ht_size t + 1) / of_nat (capacity t) \<le> resize_threshold t"
    by (auto simp: load_exceeds_def split: if_splits)
  from le assms(1) have "(of_nat (ht_size t + 1) :: rat) / of_nat (capacity t) \<le> 1"
    by (simp add: table_ok_def)
  with cap have "(of_nat (ht_size t + 1) :: rat) \<le> of_nat (capacity t)"
    by (simp add: pos_divide_le_eq del: of_nat_add of_nat_Suc)
  then have "ht_size t + 1 \<le> capacity t" by (simp only: of_nat_le_iff)
  with assms(1) show ?thesis by (simp add: table_ok_def)
qed

text \<open>Creation, insertion and removal keep the table well formed.\<close>

lemma create_table_ok:
  assumes "hash_table_create_with_parameters_and_destructor cap threshold factor destructor al = Inr (Some t)"
      and "create_keys al" "create_key_sizes al" "create_values al" "threshold \<le> 1"
  shows "table_ok t"
proof -
  from assms have t: "t = \<lparr>capacity = cap, keys = replicate cap None, key_sizes = replicate cap 0,
      ht_values = replicate cap NULL, ht_size = 0, resize_threshold = threshold,
      resize_factor = factor, value_destructor = destructor\<rparr>"
    by (simp add: hash_table_create_with_parameters_and_destructor_def calloc_def split: if_splits)
  have "occupied t = 0" by (rule occupied_replicate[where n = cap]) (simp_all add: t)
  with assms(5) show ?thesis by (simp add: table_ok_def t)
qed

lemma insert_table_ok:
  assumes ok: "table_ok t"
      and ins: "hash_table_insert (Some t) (Some key) key_size val al = Inr (rc, Some t', ev)"
  shows "table_ok t'"
proof (cases "load_exceeds t")
  case False
  with ins have "insert_entry t key key_size val al = Inr (rc, Some t', ev)"
    by (simp add: hash_table_insert_def)
  from insert_entry_ok[OF ok load_not_exceeded_not_full[OF ok False] this] show ?thesis .
next
  case True
  with ins obtain n where n: "grown_capacity t = Inr n"
    by (auto simp: hash_table_insert_def split: sum.splits)
  obtain rc1 t1 where rs: "hash_table_resize t n al = (rc1, t1)" by (cases "hash_table_resize t n al")
  show ?thesis
  proof (cases "rc1 = 0")
    case False
    with ins True n rs resize_failure[OF rs False] ok show ?thesis
      by (simp add: hash_table_insert_def)
  next
    case z: True
    from ok have thr: "resize_threshold t \<le> 1" by (simp add: table_ok_def)
    from ins True n rs z have "insert_entry t1 key key_size val al = Inr (rc, Some t', ev)"
      by (simp add: hash_table_insert_def)
    from insert_entry_ok[OF resize_ok[OF rs[unfolded z] thr] this] show ?thesis .
  qed
qed

lemma remove_table_ok:
  assumes ok: "table_ok t"
      and rm: "hash_table_remove (Some t) (Some key) key_size = Inr (Some t', ev)"
  shows "table_ok t'"
proof -
  let ?s = "unat (hash_table_fnv_1a key key_size) mod capacity t"
  from rm have cap: "0 < capacity t" by (auto simp: hash_table_remove_def split: if_splits)
  then have s: "?s < capacity t" by simp
  show ?thesis
  proof (cases "probe_loop t key key_size ?s 0")
    case (Stopped i n)
    with rm cap have "t' = t" by (simp add: hash_table_remove_def)
    with ok show ?thesis by simp
  next
    case (Found i n)
    from probe_Found_slot[OF Found] have occ: "keys t ! i \<noteq> None" by simp
    from probe_index_bound[OF s, of key key_size 0] Found have i: "i < capacity t" by simp
    from rm cap Found have t': "t' = t\<lparr>keys := (keys t)[i := None],
                                key_sizes := (key_sizes t)[i := 0],
                                ht_values := (ht_values t)[i := NULL],
                                ht_size := (if ht_size t = 0 then 2 ^ 64 - 1 else ht_size t - 1)\<rparr>"
      by (simp add: hash_table_remove_def)
    have o: "occupied t' + 1 = occupied t"
      using occ i ok by (intro occupied_clear[where i = i]) (simp_all add: t' table_ok_def)
    from o have "1 \<le> occupied t" by simp
    with ok have "ht_size t' = occupied t - 1" by (simp add: t' table_ok_def)
    with o have sz: "ht_size t' = occupied t'" by simp
    have "length (keys t') = capacity t'" "length (key_sizes t') = capacity t'"
      "length (ht_values t') = capacity t'" "resize_threshold t' \<le> 1"
      using ok by (simp_all add: t' table_ok_def)
    with sz show ?thesis by (simp add: table_ok_def)
  qed
qed

lemma probe_loop_cong:
  assumes k: "keys t' = keys t" and ks: "key_sizes t' = key_sizes t" and c: "capacity t' = capacity t"
  shows "probe_loop t' key key_size index iterations = probe_loop t key key_size index iterations"
  using assms
proof (induction t key key_size index iterations rule: probe_loop.induct)
  case (1 t key key_size index iterations)
  show ?case
  proof (cases "keys t ! index \<noteq> None \<and> iterations < capacity t")
    case False
    with "1.prems" show ?thesis by (simp add: probe_loop_stop)
  next
    case True
    show ?thesis
    proof (cases "key_sizes t ! index = key_size \<and> memcmp (the (keys t ! index)) key key_size = 0")
      case hit: True
      with True "1.prems" show ?thesis by (simp add: probe_loop_hit)
    next
      case miss: False
      from True miss "1.prems" have
        "probe_loop t' key key_size index iterations =
           probe_loop t' key key_size ((index + 1) mod capacity t') (iterations + 1)"
        by (intro probe_loop_step) simp_all
      with True miss "1.IH"[OF True miss "1.prems"] "1.prems"(3) show ?thesis
        by (simp add: probe_loop_step)
    qed
  qed
qed

text \<open>A scan that ended on an empty slot finds the key there once the key is stored in it.\<close>

lemma probe_after_store:
  assumes "probe_loop t key key_size index iterations = Stopped i n"
      and "keys t ! i = None" "n < capacity t"
      and "i < length (keys t)" "i < length (key_sizes t)" "key_size \<le> length key"
      and "keys t' = (keys t)[i := Some (take key_size key)]"
      and "key_sizes t' = (key_sizes t)[i := key_size]" "capacity t' = capacity t"
  shows "probe_loop t' key key_size index iterations = Found i n"
  using assms
proof (induction t key key_size index iterations rule: probe_loop.induct)
  case (1 t key key_size index iterations)
  show ?case
  proof (cases "keys t ! index \<noteq> None \<and> iterations < capacity t")
    case False
    with "1.prems"(1) have e: "index = i" "iterations = n" by (simp_all add: probe_loop_stop)
    have "memcmp (take key_size key) key key_size = 0"
      using "1.prems"(6) by (simp add: memcmp_eq_take)
    with "1.prems" have "probe_loop t' key key_size i n = Found i n"
      by (intro probe_loop_hit) simp_all
    with e show ?thesis by simp
  next
    case True
    then have ne: "index \<noteq> i" using "1.prems"(2) by auto
    have miss: "\<not> (key_sizes t ! index = key_size \<and> memcmp (the (keys t ! index)) key key_size = 0)"
      using "1.prems"(1) True by (auto simp: probe_loop_hit)
    from True miss "1.prems"(1) have
      "probe_loop t key key_size ((index + 1) mod capacity t) (iterations + 1) = Stopped i n"
      by (simp add: probe_loop_step)
    from "1.IH"[OF True miss this "1.prems"(2-9)]
    have "probe_loop t' key key_size ((index + 1) mod capacity t) (iterations + 1) = Found i n" .
    moreover have "probe_loop t' key key_size index iterations =
           probe_loop t' key key_size ((index + 1) mod capacity t') (iterations + 1)"
      using True miss ne "1.prems" by (intro probe_loop_step) simp_all
    ultimately show ?thesis using "1.prems"(9) by simp
  qed
qed

text \<open>
  Right after a successful insertion into a well-formed table, lookup of the same key
  (same bytes, same length) gives the inserted value.
\<close>

lemma insert_entry_then_get:
  assumes ok: "table_ok t" and nf: "occupied t < capacity t" and len: "key_size \<le> length key"
      and ins: "insert_entry t key key_size val al = Inr (0, Some t', ev)"
  shows "hash_table_get (Some t') (Some key) key_size = Inr val"
proof -
  let ?s = "unat (hash_table_fnv_1a key key_size) mod capacity t"
  from nf have cap: "0 < capacity t" by simp
  then have s: "?s < capacity t" by simp
  show ?thesis
  proof (cases "probe_loop t key key_size ?s 0")
    case (Found i n)
    with ins cap have t': "t' = t\<lparr>ht_values := (ht_values t)[i := val]\<rparr>"
      by (simp add: insert_entry_def)
    from probe_index_bound[OF s, of key key_size 0] Found have i: "i < capacity t" by simp
    have "probe_loop t' key key_size ?s 0 = probe_loop t key key_size ?s 0"
      by (rule probe_loop_cong) (simp_all add: t')
    with Found have "probe_loop t' key key_size ?s 0 = Found i n" by simp
    with cap i ok show ?thesis by (simp add: hash_table_get_def t' table_ok_def)
  next
    case (Stopped i n)
    from probe_not_full[OF nf s, of key key_size] Stopped
    have e: "keys t ! i = None" "n < capacity t" by simp_all
    from probe_index_bound[OF s, of key key_size 0] Stopped have i: "i < capacity t" by simp
    from ins cap Stopped have t': "t' = t\<lparr>keys := (keys t)[i := Some (take key_size key)],
                                    key_sizes := (key_sizes t)[i := key_size],
                                    ht_values := (ht_values t)[i := val],
                                    ht_size := ht_size t + 1\<rparr>"
      by (simp add: insert_entry_def split: if_splits)
    have "probe_loop t' key key_size ?s 0 = Found i n"
      using Stopped e i ok len by (intro probe_after_store[where t = t]) (simp_all add: t' table_ok_def)
    with cap i ok show ?thesis by (simp add: hash_table_get_def t' table_ok_def)
  qed
qed

lemma insert_then_get:
  assumes ok: "table_ok t" and len: "key_size \<le> length key"
      and ins: "hash_table_insert (Some t) (Some key) key_size val al = Inr (0, Some t', ev)"
  shows "hash_table_get (Some t') (Some key) key_size = Inr val"
  using ins
proof (cases rule: insert_cases)
  case keep
  from insert_entry_then_get[OF ok load_not_exceeded_not_full[OF ok keep(1)] len keep(2)]
  show ?thesis .
next
  case (grow n t1)
  from ok have thr: "resize_threshold t \<le> 1" by (simp add: table_ok_def)
  from insert_entry_then_get[OF resize_ok[OF grow(3) thr] len grow(4)] show ?thesis .
qed

section \<open>Growth is transparent for lookups\<close>

lemma fnv_take: "take n a = take n b \<Longrightarrow> hash_table_fnv_1a a n = hash_table_fnv_1a b n"
  by (simp add: hash_table_fnv_1a_def)

lemma probe_along_chain:
  assumes "iterations + d < capacity t" "slot_matches t ((index + d) mod capacity t) key key_size"
    and "\<forall>e<d. keys t ! ((index + e) mod capacity t) \<noteq> None" "index < capacity t"
  shows "\<exists>q n. probe_loop t key key_size index iterations = Found q n"
  using assms
proof (induction d arbitrary: index iterations)
  case 0
  then have "slot_matches t index key key_size" by simp
  with 0 show ?case by (simp add: slot_matches_def probe_loop_hit)
next
  case (Suc d)
  have occ: "keys t ! index \<noteq> None" using Suc.prems(3,4) by (auto dest: spec[where x = 0])
  have it: "iterations < capacity t" using Suc.prems by simp
  show ?case
  proof (cases "key_sizes t ! index = key_size \<and> memcmp (the (keys t ! index)) key key_size = 0")
    case True
    with occ it show ?thesis by (simp add: probe_loop_hit)
  next
    case False
    have a: "(iterations + 1) + d < capacity t" using Suc.prems by simp
    have sh: "((index + 1) mod capacity t + e) mod capacity t = (index + Suc e) mod capacity t" for e
      by (simp add: mod_add_left_eq)
    have b: "slot_matches t (((index + 1) mod capacity t + d) mod capacity t) key key_size"
      using Suc.prems(2) by (simp only: sh)
    have c: "\<forall>e<d. keys t ! (((index + 1) mod capacity t + e) mod capacity t) \<noteq> None"
      using Suc.prems(3) by (simp only: sh) auto
    have d: "(index + 1) mod capacity t < capacity t" using Suc.prems by simp
    from Suc.IH[OF a b c d] occ it False show ?thesis by (simp add: probe_loop_step)
  qed
qed

lemma rehash_probe_path:
  assumes "iterations + d < capacity t" "keys t ! ((index + d) mod capacity t) = None"
    and "index < capacity t"
  shows "\<exists>d'\<le>d. rehash_probe t index iterations = (index + d') mod capacity t \<and>
           (\<forall>e<d'. keys t ! ((index + e) mod capacity t) \<noteq> None)"
  using assms
proof (induction d arbitrary: index iterations)
  case 0
  then have "keys t ! index = None" by simp
  then have "rehash_probe t index iterations = index" by (subst rehash_probe.simps) simp
  with 0 show ?case by simp
next
  case (Suc d)
  show ?case
  proof (cases "keys t ! index = None")
    case True
    then have "rehash_probe t index iterations = index" by (subst rehash_probe.simps) simp
    with Suc.prems show ?thesis by (intro exI[where x = 0]) simp
  next
    case occ: False
    have it: "iterations < capacity t" using Suc.prems by simp
    have a: "(iterations + 1) + d < capacity t" using Suc.prems by simp
    have sh: "((index + 1) mod capacity t + e) mod capacity t = (index + Suc e) mod capacity t" for e
      by (simp add: mod_add_left_eq)
    have b: "keys t ! (((index + 1) mod capacity t + d) mod capacity t) = None"
      using Suc.prems(2) by (simp only: sh)
    have c: "(index + 1) mod capacity t < capacity t" using Suc.prems by simp
    have st: "rehash_probe t index iterations = rehash_probe t ((index + 1) mod capacity t) (iterations + 1)"
      using occ it by (subst rehash_probe.simps) simp
    from Suc.IH[OF a b c] obtain d' where d': "d' \<le> d"
      "rehash_probe t ((index + 1) mod capacity t) (iterations + 1) = ((index + 1) mod capacity t + d') mod capacity t"
      "\<forall>e<d'. keys t ! (((index + 1) mod capacity t + e) mod capacity t) \<noteq> None"
      by blast
    have "\<forall>e<Suc d'. keys t ! ((index + e) mod capacity t) \<noteq> None"
    proof (intro allI impI)
      fix e assume e: "e < Suc d'"
      show "keys t ! ((index + e) mod capacity t) \<noteq> None"
      proof (cases e)
        case 0
        with occ Suc.prems(3) show ?thesis by simp
      next
        case (Suc e')
        with e d'(3) have "keys t ! (((index + 1) mod capacity t + e') mod capacity t) \<noteq> None" by simp
        then have "keys t ! ((index + Suc e') mod capacity t) \<noteq> None"
          unfolding sh .
        with Suc show ?thesis by simp
      qed
    qed
    moreover have "rehash_probe t index iterations = (index + Suc d') mod capacity t"
      using st d'(2) unfolding sh by simp
    ultimately show ?thesis using d'(1) by (intro exI[where x = "Suc d'"]) simp
  qed
qed

lemma rehash_probe_chain:
  assumes nf: "occupied t < capacity t" and idx: "index < capacity t"
  shows "\<exists>d<capacity t. rehash_probe t index 0 = (index + d) mod capacity t \<and>
           (\<forall>e<d. keys t ! ((index + e) mod capacity t) \<noteq> None)"
proof -
  from empty_slot_exists[OF nf] obtain j where j: "j < capacity t" "keys t ! j = None" by blast
  let ?d = "(j + capacity t - index) mod capacity t"
  from empty_slot_ahead[OF j(1) idx] j(2)
  have a: "0 + ?d < capacity t" and b: "keys t ! ((index + ?d) mod capacity t) = None"
    by simp_all
  from rehash_probe_path[OF a b idx] obtain d' where "d' \<le> ?d"
    "rehash_probe t index 0 = (index + d') mod capacity t"
    "\<forall>e<d'. keys t ! ((index + e) mod capacity t) \<noteq> None" by blast
  with a show ?thesis by (intro exI[where x = d']) simp
qed

lemma rehash_entry_chain:
  assumes inv: "rehash_inv t (Suc todo)" and ch: "chain_ok t" and mv: "moved ok oks ov seen t"
  shows "chain_ok (rehash_entry ok oks ov t i) \<and> moved ok oks ov (insert i seen) (rehash_entry ok oks ov t i)"
proof (cases "ok ! i")
  case None
  then have "rehash_entry ok oks ov t i = t" by (simp add: rehash_entry_def)
  moreover from mv None have "moved ok oks ov (insert i seen) t"
    unfolding moved_def by auto
  ultimately show ?thesis using ch by simp
next
  case (Some k)
  let ?s = "unat (hash_table_fnv_1a k (oks ! i)) mod capacity t"
  define p0 where "p0 = rehash_probe t ?s 0"
  let ?t' = "rehash_entry ok oks ov t i"
  have r: "?t' =
      t\<lparr>keys := (keys t)[p0 := Some k], key_sizes := (key_sizes t)[p0 := oks ! i],
        ht_values := (ht_values t)[p0 := ov ! i], ht_size := ht_size t + 1\<rparr>"
    using Some by (simp add: rehash_entry_def p0_def Let_def)
  from inv have nf: "occupied t < capacity t" and cap: "0 < capacity t"
    and len: "length (keys t) = capacity t" "length (key_sizes t) = capacity t"
       "length (ht_values t) = capacity t"
    by (simp_all add: rehash_inv_def)
  from cap have s: "?s < capacity t" by simp
  from rehash_probe_not_full[OF nf s] have e: "keys t ! p0 = None" "p0 < capacity t"
    by (simp_all add: p0_def)
  from rehash_probe_chain[OF nf s] obtain d0 where d0: "d0 < capacity t"
    "p0 = (?s + d0) mod capacity t" "\<forall>e<d0. keys t ! ((?s + e) mod capacity t) \<noteq> None"
    unfolding p0_def by blast
  have c': "capacity ?t' = capacity t" by (simp add: r)
  have at_p0: "keys ?t' ! p0 = Some k" "key_sizes ?t' ! p0 = oks ! i" "ht_values ?t' ! p0 = ov ! i"
    using e(2) len by (simp_all add: r)
  have other: "keys ?t' ! p = keys t ! p" "key_sizes ?t' ! p = key_sizes t ! p"
    "ht_values ?t' ! p = ht_values t ! p" if "p \<noteq> p0" for p
    using that by (simp_all add: r)
  have keeps: "keys ?t' ! p \<noteq> None" if "keys t ! p \<noteq> None" for p
    using that other(1)[of p] at_p0(1) by (cases "p = p0") simp_all
  have chain: "chain_ok ?t'"
    unfolding chain_ok_def c'
  proof (intro allI impI)
    fix p assume p: "p < capacity t" and occ: "keys ?t' ! p \<noteq> None"
    show "\<exists>d<capacity t. p = (home ?t' p + d) mod capacity t \<and>
           (\<forall>e<d. keys ?t' ! ((home ?t' p + e) mod capacity t) \<noteq> None)"
    proof (cases "p = p0")
      case True
      have "home ?t' p0 = ?s" by (simp add: home_def at_p0 c')
      with d0 keeps True show ?thesis by (intro exI[where x = d0]) simp
    next
      case False
      with occ other(1)[OF False] have o: "keys t ! p \<noteq> None" by simp
      have h: "home ?t' p = home t p" by (simp add: home_def other[OF False] c')
      from ch p o obtain d where "d < capacity t" "p = (home t p + d) mod capacity t"
        "\<forall>e<d. keys t ! ((home t p + e) mod capacity t) \<noteq> None"
        unfolding chain_ok_def by blast
      with keeps h show ?thesis by (intro exI[where x = d]) simp
    qed
  qed
  have m1: "\<exists>j\<in>insert i seen. ok ! j \<noteq> None \<and> entry ?t' p = (ok ! j, oks ! j, ov ! j)"
    if p: "p < capacity t" and occ: "keys ?t' ! p \<noteq> None" for p
  proof (cases "p = p0")
    case True
    with Some at_p0 show ?thesis by (simp add: entry_def)
  next
    case False
    with occ other(1)[OF False] have "keys t ! p \<noteq> None" by simp
    with mv p obtain j where "j \<in> seen" "ok ! j \<noteq> None" "entry t p = (ok ! j, oks ! j, ov ! j)"
      unfolding moved_def by blast
    with other[OF False] show ?thesis by (auto simp: entry_def)
  qed
  have m2: "\<exists>p<capacity t. entry ?t' p = (ok ! j, oks ! j, ov ! j)"
    if j: "j \<in> insert i seen" and oj: "ok ! j \<noteq> None" for j
  proof (cases "j \<in> seen")
    case True
    with mv oj obtain p where p: "p < capacity t" "entry t p = (ok ! j, oks ! j, ov ! j)"
      unfolding moved_def by blast
    with oj have "keys t ! p \<noteq> None" by (simp add: entry_def)
    with e(1) have "p \<noteq> p0" by auto
    from other[OF this] p show ?thesis by (intro exI[where x = p]) (simp add: entry_def)
  next
    case False
    with j have "j = i" by simp
    with Some at_p0 e(2) show ?thesis by (intro exI[where x = p0]) (simp add: entry_def)
  qed
  from m1 m2 have "moved ok oks ov (insert i seen) ?t'"
    unfolding moved_def c' by blast
  with chain show ?thesis by simp
qed

lemma rehash_loop_chain:
  assumes "rehash_inv t (length is)" "chain_ok t" "moved ok oks ov seen t"
  shows "chain_ok (foldl (rehash_entry ok oks ov) t is) \<and>
         moved ok oks ov (seen \<union> set is) (foldl (rehash_entry ok oks ov) t is)"
  using assms
proof (induction "is" arbitrary: t seen)
  case Nil
  then show ?case by simp
next
  case (Cons i "is")
  from Cons.prems(1) have a: "rehash_inv t (Suc (length is))" by simp
  from rehash_entry_chain[OF a Cons.prems(2,3)]
  have b: "chain_ok (rehash_entry ok oks ov t i)"
    and c: "moved ok oks ov (insert i seen) (rehash_entry ok oks ov t i)" by simp_all
  from rehash_entry_inv[OF a] have d: "rehash_inv (rehash_entry ok oks ov t i) (length is)" .
  from Cons.IH[OF d b c] show ?case by simp
qed

lemma resize_chain:
  assumes r: "hash_table_resize t n al = (0, t1)"
  shows "chain_ok t1" "moved (keys t) (key_sizes t) (ht_values t) {0..<capacity t} t1"
proof -
  let ?t0 = "t\<lparr>keys := replicate n None, key_sizes := replicate n 0, ht_values := replicate n NULL,
               capacity := n, ht_size := 0\<rparr>"
  from r have ok: "calloc_keys al" "calloc_key_sizes al" "calloc_values al" "capacity t < n"
    by (auto simp: hash_table_resize_def Let_def split: if_splits)
  with r have t1: "t1 = foldl (rehash_entry (keys t) (key_sizes t) (ht_values t)) ?t0 [0..<capacity t]"
    by (simp add: hash_table_resize_def Let_def calloc_def)
  have "occupied ?t0 = 0" by (rule occupied_replicate) simp_all
  with ok(4) have a: "rehash_inv ?t0 (length [0..<capacity t])" by (simp add: rehash_inv_def)
  have b: "chain_ok ?t0" by (simp add: chain_ok_def)
  have c: "moved (keys t) (key_sizes t) (ht_values t) {} ?t0" by (simp add: moved_def)
  from rehash_loop_chain[OF a b c]
  show "chain_ok t1" "moved (keys t) (key_sizes t) (ht_values t) {0..<capacity t} t1"
    unfolding t1 by simp_all
qed

text \<open>
  Growth is transparent for lookups on a table without duplicate keys: a key that the scan
  finds before a successful growth is found after it, with the same value.
\<close>

lemma resize_transparent:
  assumes r: "hash_table_resize t n al = (0, t1)"
      and valid: "keys_valid t" and dist: "keys_distinct t" and len: "key_size \<le> length key"
      and found: "probe_loop t key key_size (unat (hash_table_fnv_1a key key_size) mod capacity t) 0 = Found j m"
  shows "hash_table_get (Some t) (Some key) key_size = Inr (ht_values t ! j)"
    and "hash_table_get (Some t1) (Some key) key_size = Inr (ht_values t ! j)"
proof -
  let ?h = "unat (hash_table_fnv_1a key key_size)"
  from probe_Found_slot[OF found] have mj: "keys t ! j \<noteq> None" "key_sizes t ! j = key_size"
    "memcmp (the (keys t ! j)) key key_size = 0" and cap: "0 < capacity t" by simp_all
  from cap have "?h mod capacity t < capacity t" by simp
  from probe_index_bound[OF this, of key key_size 0] found have j: "j < capacity t" by simp
  show "hash_table_get (Some t) (Some key) key_size = Inr (ht_values t ! j)"
    using cap found by (simp add: hash_table_get_def)
  have eq_take: "take key_size (the (keys t ! i)) = take key_size key"
    if "i < capacity t" "keys t ! i \<noteq> None" "key_sizes t ! i = key_size"
       "memcmp (the (keys t ! i)) key key_size = 0" for i
  proof -
    from that(2) obtain k where k: "keys t ! i = Some k" by auto
    with valid that(1,3) have "key_size \<le> length k" by (auto simp: keys_valid_def)
    with that(4) k len show ?thesis by (simp add: memcmp_eq_take)
  qed
  note c = resize_chain[OF r]
  have cap1: "capacity t < capacity t1" using resize_success(1,2)[OF r] by simp
  then have pos1: "0 < capacity t1" by simp
  from c(2) j mj(1) obtain p where p: "p < capacity t1"
    "entry t1 p = (keys t ! j, key_sizes t ! j, ht_values t ! j)"
    unfolding moved_def by (auto simp: atLeast0LessThan)
  then have sp: "slot_matches t1 p key key_size"
    using mj by (simp add: slot_matches_def entry_def)
  have "hash_table_fnv_1a (the (keys t ! j)) key_size = hash_table_fnv_1a key key_size"
    by (rule fnv_take) (rule eq_take[OF j mj])
  with p(2) mj(2) have hp: "home t1 p = ?h mod capacity t1" by (simp add: home_def entry_def)
  from c(1) p(1) sp obtain d where d: "d < capacity t1" "p = (home t1 p + d) mod capacity t1"
    "\<forall>e<d. keys t1 ! ((home t1 p + e) mod capacity t1) \<noteq> None"
    unfolding chain_ok_def slot_matches_def by blast
  have "\<exists>q n. probe_loop t1 key key_size (?h mod capacity t1) 0 = Found q n"
  proof (rule probe_along_chain[where d = d])
    show "0 + d < capacity t1" using d(1) by simp
    show "slot_matches t1 ((?h mod capacity t1 + d) mod capacity t1) key key_size"
      using sp d(2) hp by simp
    show "\<forall>e<d. keys t1 ! ((?h mod capacity t1 + e) mod capacity t1) \<noteq> None"
      using d(3) hp by simp
    show "?h mod capacity t1 < capacity t1" using pos1 by simp
  qed
  then obtain q n' where f1: "probe_loop t1 key key_size (?h mod capacity t1) 0 = Found q n'" by blast
  from probe_Found_slot[OF f1] have mq: "keys t1 ! q \<noteq> None" "key_sizes t1 ! q = key_size"
    "memcmp (the (keys t1 ! q)) key key_size = 0" by simp_all
  from pos1 have "?h mod capacity t1 < capacity t1" by simp
  from probe_index_bound[OF this, of key key_size 0] f1 have q: "q < capacity t1" by simp
  from c(2) q mq(1) obtain i where i: "i < capacity t" "keys t ! i \<noteq> None"
    "entry t1 q = (keys t ! i, key_sizes t ! i, ht_values t ! i)"
    unfolding moved_def by (auto simp: atLeast0LessThan)
  from i(3) mq have mi: "key_sizes t ! i = key_size" "memcmp (the (keys t ! i)) key key_size = 0"
    by (simp_all add: entry_def)
  from eq_take[OF i(1,2) mi] eq_take[OF j mj]
  have "take (key_sizes t ! i) (the (keys t ! i)) = take (key_sizes t ! j) (the (keys t ! j))"
    using mi(1) mj(2) by simp
  with dist i(1,2) j mj(1,2) mi(1) have "i = j" unfolding keys_distinct_def by blast
  with i(3) have "ht_values t1 ! q = ht_values t ! j" by (simp add: entry_def)
  with pos1 f1 show "hash_table_get (Some t1) (Some key) key_size = Inr (ht_values t ! j)"
    by (simp add: hash_table_get_def)
qed

section \<open>Sound tables\<close>

text \<open>
  On a sound table lookup behaves like a finite map: a stored key is found with its value
  (\<open>get_stored\<close>), a key that no slot holds is absent (\<open>absent_key\<close>), and a successful
  insertion sets the value of its key (\<open>insert_then_get\<close>) and leaves every other key as it
  was (\<open>insert_keeps_other\<close>, \<open>insert_keeps_absent\<close>).
\<close>

lemma slot_matches_take:
  assumes "keys t ! p = Some k" "key_sizes t ! p \<le> length k" "key_size \<le> length key"
  shows "slot_matches t p key key_size =
           (key_sizes t ! p = key_size \<and> take key_size k = take key_size key)"
  using assms by (auto simp: slot_matches_def memcmp_eq_take)

text \<open>On a table with the probe-chain invariant the scan finds every stored key.\<close>

lemma probe_finds_stored:
  assumes ch: "chain_ok t" and valid: "keys_valid t" and len: "key_size \<le> length key"
      and p: "p < capacity t" and m: "slot_matches t p key key_size"
  shows "\<exists>q n. probe_loop t key key_size (unat (hash_table_fnv_1a key key_size) mod capacity t) 0 = Found q n"
proof -
  let ?h = "unat (hash_table_fnv_1a key key_size)"
  from m obtain k where k: "keys t ! p = Some k" by (auto simp: slot_matches_def)
  with valid p have "key_sizes t ! p \<le> length k" by (auto simp: keys_valid_def)
  from m[unfolded slot_matches_take[OF k this len]]
  have ks: "key_sizes t ! p = key_size" and tk: "take key_size k = take key_size key" by simp_all
  have "hash_table_fnv_1a k key_size = hash_table_fnv_1a key key_size" by (rule fnv_take) (rule tk)
  with k ks have hp: "home t p = ?h mod capacity t" by (simp add: home_def)
  from ch p k obtain d where d: "d < capacity t" "p = (home t p + d) mod capacity t"
    "\<forall>e<d. keys t ! ((home t p + e) mod capacity t) \<noteq> None"
    unfolding chain_ok_def by force
  show ?thesis
  proof (rule probe_along_chain[where d = d])
    show "0 + d < capacity t" using d(1) by simp
    show "slot_matches t ((?h mod capacity t + d) mod capacity t) key key_size"
      using m d(2) hp by simp
    show "\<forall>e<d. keys t ! ((?h mod capacity t + e) mod capacity t) \<noteq> None"
      using d(3) hp by simp
    show "?h mod capacity t < capacity t" using p by simp
  qed
qed

text \<open>Two slots that match the same query hold the same key, so they are one slot.\<close>

lemma matches_same_slot:
  assumes valid: "keys_valid t" and dist: "keys_distinct t" and len: "key_size \<le> length key"
      and p: "p < capacity t" "slot_matches t p key key_size"
      and q: "q < capacity t" "slot_matches t q key key_size"
  shows "p = q"
proof -
  from p(2) obtain k where k: "keys t ! p = Some k" by (auto simp: slot_matches_def)
  from q(2) obtain k' where k': "keys t ! q = Some k'" by (auto simp: slot_matches_def)
  from valid p(1) k have lk: "key_sizes t ! p \<le> length k" by (auto simp: keys_valid_def)
  from valid q(1) k' have lk': "key_sizes t ! q \<le> length k'" by (auto simp: keys_valid_def)
  from p(2)[unfolded slot_matches_take[OF k lk len]] q(2)[unfolded slot_matches_take[OF k' lk' len]]
  have "key_sizes t ! p = key_sizes t ! q"
    "take (key_sizes t ! p) (the (keys t ! p)) = take (key_sizes t ! q) (the (keys t ! q))"
    using k k' by simp_all
  with dist p(1) q(1) k k' show ?thesis unfolding keys_distinct_def by force
qed

text \<open>Lookup is complete and exact on a sound table: the key stored in slot \<open>p\<close> is found, with
  the value of slot \<open>p\<close>.\<close>

lemma get_stored:
  assumes s: "sound t" and len: "key_size \<le> length key"
      and p: "p < capacity t" and m: "slot_matches t p key key_size"
  shows "hash_table_get (Some t) (Some key) key_size = Inr (ht_values t ! p)"
proof -
  let ?s = "unat (hash_table_fnv_1a key key_size) mod capacity t"
  from s have ch: "chain_ok t" and valid: "keys_valid t" and dist: "keys_distinct t"
    by (simp_all add: sound_def)
  from probe_finds_stored[OF ch valid len p m] obtain q n where
    f: "probe_loop t key key_size ?s 0 = Found q n" by blast
  from p have "?s < capacity t" by simp
  from probe_index_bound[OF this, of key key_size 0] f have q: "q < capacity t" by simp
  from probe_Found_slot[OF f] have "slot_matches t q key key_size" by (simp add: slot_matches_def)
  from matches_same_slot[OF valid dist len p m q this] have "p = q" .
  with f p show ?thesis by (simp add: hash_table_get_def)
qed

text \<open>The path of a scan that ended at the loop condition.\<close>

lemma probe_path:
  assumes "probe_loop t key key_size index iterations = Stopped i n" "index < capacity t"
  shows "\<exists>d. n = iterations + d \<and> i = (index + d) mod capacity t \<and>
           (\<forall>e<d. keys t ! ((index + e) mod capacity t) \<noteq> None)"
  using assms
proof (induction t key key_size index iterations rule: probe_loop.induct)
  case (1 t key key_size index iterations)
  show ?case
  proof (cases "keys t ! index \<noteq> None \<and> iterations < capacity t")
    case False
    with "1.prems" have "i = index" "n = iterations" by (simp_all add: probe_loop_stop)
    with "1.prems"(2) show ?thesis by (intro exI[where x = 0]) simp
  next
    case True
    have miss: "\<not> (key_sizes t ! index = key_size \<and> memcmp (the (keys t ! index)) key key_size = 0)"
      using "1.prems"(1) True by (auto simp: probe_loop_hit)
    from True miss "1.prems"(1) have
      st: "probe_loop t key key_size ((index + 1) mod capacity t) (iterations + 1) = Stopped i n"
      by (simp add: probe_loop_step)
    have c: "(index + 1) mod capacity t < capacity t" using "1.prems"(2) by simp
    have sh: "((index + 1) mod capacity t + e) mod capacity t = (index + Suc e) mod capacity t" for e
      by (simp add: mod_add_left_eq)
    from "1.IH"[OF True miss st c] obtain d where d: "n = iterations + 1 + d"
      "i = ((index + 1) mod capacity t + d) mod capacity t"
      "\<forall>e<d. keys t ! (((index + 1) mod capacity t + e) mod capacity t) \<noteq> None" by blast
    have "\<forall>e<Suc d. keys t ! ((index + e) mod capacity t) \<noteq> None"
    proof (intro allI impI)
      fix e assume e: "e < Suc d"
      show "keys t ! ((index + e) mod capacity t) \<noteq> None"
      proof (cases e)
        case 0
        with True "1.prems"(2) show ?thesis by simp
      next
        case (Suc e')
        with e d(3) have "keys t ! (((index + 1) mod capacity t + e') mod capacity t) \<noteq> None" by simp
        then have "keys t ! ((index + Suc e') mod capacity t) \<noteq> None" unfolding sh .
        with Suc show ?thesis by simp
      qed
    qed
    moreover have "i = (index + Suc d) mod capacity t" using d(2) unfolding sh .
    ultimately show ?thesis using d(1) by (intro exI[where x = "Suc d"]) simp
  qed
qed

text \<open>Storing a new key in the empty slot where its scan ended keeps the table sound.\<close>

lemma insert_entry_sound:
  assumes s: "sound t" and nf: "occupied t < capacity t" and len: "key_size \<le> length key"
      and ins: "insert_entry t key key_size val al = Inr (rc, Some t', ev)"
  shows "sound t'"
proof -
  let ?s = "unat (hash_table_fnv_1a key key_size) mod capacity t"
  from s have ok: "table_ok t" and ch: "chain_ok t" and valid: "keys_valid t"
    and dist: "keys_distinct t" by (simp_all add: sound_def)
  from insert_entry_ok[OF ok nf ins] have ok': "table_ok t'" .
  from nf have cap: "0 < capacity t" by simp
  then have sl: "?s < capacity t" by simp
  show ?thesis
  proof (cases "probe_loop t key key_size ?s 0")
    case (Found i n)
    with ins cap have t': "t' = t\<lparr>ht_values := (ht_values t)[i := val]\<rparr>"
      by (simp add: insert_entry_def)
    from ch have "chain_ok t'" by (simp add: chain_ok_def home_def t')
    moreover from valid have "keys_valid t'" by (simp add: keys_valid_def t')
    moreover from dist have "keys_distinct t'" by (simp add: keys_distinct_def t')
    ultimately show ?thesis using ok' by (simp add: sound_def)
  next
    case (Stopped i n)
    show ?thesis
    proof (cases "malloc_key al")
      case False
      with ins cap Stopped have "t' = t" by (simp add: insert_entry_def)
      with s show ?thesis by simp
    next
      case True
      with ins cap Stopped have t': "t' = t\<lparr>keys := (keys t)[i := Some (take key_size key)],
                                    key_sizes := (key_sizes t)[i := key_size],
                                    ht_values := (ht_values t)[i := val],
                                    ht_size := ht_size t + 1\<rparr>"
        by (simp add: insert_entry_def)
      from probe_not_full[OF nf sl, of key key_size] Stopped
      have e: "keys t ! i = None" "n < capacity t" by simp_all
      from probe_index_bound[OF sl, of key key_size 0] Stopped have i: "i < capacity t" by simp
      from probe_path[OF Stopped sl] have path: "i = (?s + n) mod capacity t"
        "\<forall>e<n. keys t ! ((?s + e) mod capacity t) \<noteq> None" by simp_all
      from ok have lens: "length (keys t) = capacity t" "length (key_sizes t) = capacity t"
        "length (ht_values t) = capacity t" by (simp_all add: table_ok_def)
      have c': "capacity t' = capacity t" by (simp add: t')
      have at_i: "keys t' ! i = Some (take key_size key)" "key_sizes t' ! i = key_size"
        using i lens by (simp_all add: t')
      have other: "keys t' ! p = keys t ! p" "key_sizes t' ! p = key_sizes t ! p"
        "ht_values t' ! p = ht_values t ! p" if "p \<noteq> i" for p
        using that by (simp_all add: t')
      have keeps: "keys t' ! p \<noteq> None" if "keys t ! p \<noteq> None" for p
        using that other(1)[of p] at_i(1) by (cases "p = i") simp_all
      have no_match: "\<not> slot_matches t p key key_size" if "p < capacity t" for p
      proof
        assume "slot_matches t p key key_size"
        from probe_finds_stored[OF ch valid len that this] Stopped show False by simp
      qed
      have chain: "chain_ok t'"
        unfolding chain_ok_def c'
      proof (intro allI impI)
        fix p assume p: "p < capacity t" and occ: "keys t' ! p \<noteq> None"
        show "\<exists>d<capacity t. p = (home t' p + d) mod capacity t \<and>
               (\<forall>e<d. keys t' ! ((home t' p + e) mod capacity t) \<noteq> None)"
        proof (cases "p = i")
          case True
          have "hash_table_fnv_1a (take key_size key) key_size = hash_table_fnv_1a key key_size"
            by (rule fnv_take) simp
          then have "home t' i = ?s" by (simp add: home_def at_i c')
          with path e(2) keeps True show ?thesis by (intro exI[where x = n]) simp
        next
          case False
          with occ other(1)[OF False] have o: "keys t ! p \<noteq> None" by simp
          have h: "home t' p = home t p" by (simp add: home_def other[OF False] c')
          from ch p o obtain d where "d < capacity t" "p = (home t p + d) mod capacity t"
            "\<forall>e<d. keys t ! ((home t p + e) mod capacity t) \<noteq> None"
            unfolding chain_ok_def by blast
          with keeps h show ?thesis by (intro exI[where x = d]) simp
        qed
      qed
      have val': "keys_valid t'"
        unfolding keys_valid_def c'
      proof (intro allI impI)
        fix p k assume p: "p < capacity t" and k: "keys t' ! p = Some k"
        show "key_sizes t' ! p \<le> length k"
        proof (cases "p = i")
          case True
          with k at_i len show ?thesis by auto
        next
          case False
          with k other[OF False] valid p show ?thesis by (auto simp: keys_valid_def)
        qed
      qed
      have new_old: False
        if b: "b < capacity t" "b \<noteq> i" "keys t' ! b \<noteq> None" "key_sizes t' ! b = key_size"
          "take key_size (the (keys t' ! b)) = take key_size (take key_size key)" for b
      proof -
        from b other[OF b(2)] obtain k where k: "keys t ! b = Some k" "key_sizes t ! b = key_size"
          "take key_size k = take key_size key" by auto
        with valid b(1) have "key_sizes t ! b \<le> length k" by (auto simp: keys_valid_def)
        from slot_matches_take[OF k(1) this len] k have "slot_matches t b key key_size" by simp
        with no_match[OF b(1)] show False by simp
      qed
      have dist': "keys_distinct t'"
        unfolding keys_distinct_def c'
      proof (intro allI impI)
        fix a b assume a: "a < capacity t" and b: "b < capacity t"
          and h: "keys t' ! a \<noteq> None \<and> keys t' ! b \<noteq> None \<and> key_sizes t' ! a = key_sizes t' ! b \<and>
            take (key_sizes t' ! a) (the (keys t' ! a)) = take (key_sizes t' ! b) (the (keys t' ! b))"
        show "a = b"
        proof (cases "a = i")
          case ai: True
          show ?thesis
          proof (cases "b = i")
            case True
            with ai show ?thesis by simp
          next
            case False
            from h have eq: "take (key_sizes t' ! a) (the (keys t' ! a))
                = take (key_sizes t' ! b) (the (keys t' ! b))"
              and ks_eq: "key_sizes t' ! a = key_sizes t' ! b" and ob: "keys t' ! b \<noteq> None"
              by blast+
            from ks_eq ai at_i(2) have k1: "key_sizes t' ! b = key_size" by simp
            have "take key_size (the (keys t' ! b)) = take (key_sizes t' ! b) (the (keys t' ! b))"
              by (simp only: k1)
            also have "\<dots> = take (key_sizes t' ! a) (the (keys t' ! a))" by (rule eq[symmetric])
            also have "\<dots> = take key_size (take key_size key)" by (simp only: ai at_i option.sel)
            finally have "take key_size (the (keys t' ! b)) = take key_size (take key_size key)" .
            from new_old[OF b False ob k1 this] show ?thesis by simp
          qed
        next
          case an: False
          show ?thesis
          proof (cases "b = i")
            case True
            from h have eq: "take (key_sizes t' ! a) (the (keys t' ! a))
                = take (key_sizes t' ! b) (the (keys t' ! b))"
              and ks_eq: "key_sizes t' ! a = key_sizes t' ! b" and oa: "keys t' ! a \<noteq> None"
              by blast+
            from ks_eq True at_i(2) have k1: "key_sizes t' ! a = key_size" by simp
            have "take key_size (the (keys t' ! a)) = take (key_sizes t' ! a) (the (keys t' ! a))"
              by (simp only: k1)
            also have "\<dots> = take (key_sizes t' ! b) (the (keys t' ! b))" by (rule eq)
            also have "\<dots> = take key_size (take key_size key)" by (simp only: True at_i option.sel)
            finally have "take key_size (the (keys t' ! a)) = take key_size (take key_size key)" .
            from new_old[OF a an oa k1 this] show ?thesis by simp
          next
            case False
            with an h other[OF an] other[OF False] dist a b show ?thesis
              unfolding keys_distinct_def by auto
          qed
        qed
      qed
      from ok' chain val' dist' show ?thesis by (simp add: sound_def)
    qed
  qed
qed

lemma rehash_entry_store:
  assumes inv: "rehash_inv t (Suc todo)" and k: "ok ! i = Some k"
  obtains p0 where "p0 < capacity t" "keys t ! p0 = None"
    "rehash_entry ok oks ov t i =
       t\<lparr>keys := (keys t)[p0 := Some k], key_sizes := (key_sizes t)[p0 := oks ! i],
         ht_values := (ht_values t)[p0 := ov ! i], ht_size := ht_size t + 1\<rparr>"
proof -
  let ?s = "unat (hash_table_fnv_1a k (oks ! i)) mod capacity t"
  from inv have nf: "occupied t < capacity t" by (simp add: rehash_inv_def)
  then have "?s < capacity t" by simp
  from rehash_probe_not_full[OF nf this]
  have "rehash_probe t ?s 0 < capacity t" "keys t ! rehash_probe t ?s 0 = None" by simp_all
  moreover have "rehash_entry ok oks ov t i =
       t\<lparr>keys := (keys t)[rehash_probe t ?s 0 := Some k],
         key_sizes := (key_sizes t)[rehash_probe t ?s 0 := oks ! i],
         ht_values := (ht_values t)[rehash_probe t ?s 0 := ov ! i], ht_size := ht_size t + 1\<rparr>"
    using k by (simp add: rehash_entry_def Let_def)
  ultimately show ?thesis by (rule that)
qed

text \<open>
  Moving one more entry keeps the new table free of duplicate keys, when the old table has
  no duplicate key among the slots of \<open>S\<close>.
\<close>

lemma rehash_entry_distinct:
  assumes inv: "rehash_inv t (Suc todo)" and mv: "moved ok oks ov seen t" and dn: "keys_distinct t"
      and old: "\<forall>a\<in>S. \<forall>b\<in>S. ok ! a \<noteq> None \<and> ok ! b \<noteq> None \<and> oks ! a = oks ! b \<and>
                  take (oks ! a) (the (ok ! a)) = take (oks ! b) (the (ok ! b)) \<longrightarrow> a = b"
      and i: "i \<in> S" "i \<notin> seen" "seen \<subseteq> S"
  shows "keys_distinct (rehash_entry ok oks ov t i)"
proof (cases "ok ! i")
  case None
  with dn show ?thesis by (simp add: rehash_entry_def)
next
  case (Some k)
  let ?t' = "rehash_entry ok oks ov t i"
  from rehash_entry_store[OF inv Some, of oks ov] obtain p0 where e: "p0 < capacity t" "keys t ! p0 = None"
    and r: "?t' = t\<lparr>keys := (keys t)[p0 := Some k], key_sizes := (key_sizes t)[p0 := oks ! i],
         ht_values := (ht_values t)[p0 := ov ! i], ht_size := ht_size t + 1\<rparr>"
    by blast
  from inv have len: "length (keys t) = capacity t" "length (key_sizes t) = capacity t"
    by (simp_all add: rehash_inv_def)
  have c': "capacity ?t' = capacity t" by (simp add: r)
  have at_p0: "keys ?t' ! p0 = Some k" "key_sizes ?t' ! p0 = oks ! i"
    using e(1) len by (simp_all add: r)
  have other: "keys ?t' ! p = keys t ! p" "key_sizes ?t' ! p = key_sizes t ! p" if "p \<noteq> p0" for p
    using that by (simp_all add: r)
  have new_old: False
    if b: "b < capacity t" "b \<noteq> p0" "keys ?t' ! b \<noteq> None" "key_sizes ?t' ! b = oks ! i"
      "take (oks ! i) (the (keys ?t' ! b)) = take (oks ! i) k" for b
  proof -
    from b other[OF b(2)] have o: "keys t ! b \<noteq> None" by simp
    with mv b(1) obtain j where j: "j \<in> seen" "ok ! j \<noteq> None" "entry t b = (ok ! j, oks ! j, ov ! j)"
      unfolding moved_def by blast
    from j(3) have kb: "keys t ! b = ok ! j" "key_sizes t ! b = oks ! j" by (simp_all add: entry_def)
    with b other[OF b(2)] have "oks ! j = oks ! i" "take (oks ! j) (the (ok ! j)) = take (oks ! i) (the (ok ! i))"
      using Some by simp_all
    with old j(1,2) i Some have "j = i" by (metis option.distinct(1) subsetD)
    with j(1) i(2) show False by simp
  qed
  show ?thesis
    unfolding keys_distinct_def c'
  proof (intro allI impI)
    fix a b assume a: "a < capacity t" and b: "b < capacity t"
      and h: "keys ?t' ! a \<noteq> None \<and> keys ?t' ! b \<noteq> None \<and> key_sizes ?t' ! a = key_sizes ?t' ! b \<and>
        take (key_sizes ?t' ! a) (the (keys ?t' ! a)) = take (key_sizes ?t' ! b) (the (keys ?t' ! b))"
    from h have eq: "take (key_sizes ?t' ! a) (the (keys ?t' ! a))
        = take (key_sizes ?t' ! b) (the (keys ?t' ! b))"
      and ks_eq: "key_sizes ?t' ! a = key_sizes ?t' ! b"
      and oa: "keys ?t' ! a \<noteq> None" and ob: "keys ?t' ! b \<noteq> None"
      by blast+
    show "a = b"
    proof (cases "a = p0")
      case ai: True
      show ?thesis
      proof (cases "b = p0")
        case True
        with ai show ?thesis by simp
      next
        case False
        from ks_eq ai at_p0(2) have k1: "key_sizes ?t' ! b = oks ! i" by simp
        have "take (oks ! i) (the (keys ?t' ! b)) = take (key_sizes ?t' ! b) (the (keys ?t' ! b))"
          by (simp only: k1)
        also have "\<dots> = take (key_sizes ?t' ! a) (the (keys ?t' ! a))" by (rule eq[symmetric])
        also have "\<dots> = take (oks ! i) k" by (simp only: ai at_p0 option.sel)
        finally have "take (oks ! i) (the (keys ?t' ! b)) = take (oks ! i) k" .
        from new_old[OF b False ob k1 this] show ?thesis by simp
      qed
    next
      case an: False
      show ?thesis
      proof (cases "b = p0")
        case True
        from ks_eq True at_p0(2) have k1: "key_sizes ?t' ! a = oks ! i" by simp
        have "take (oks ! i) (the (keys ?t' ! a)) = take (key_sizes ?t' ! a) (the (keys ?t' ! a))"
          by (simp only: k1)
        also have "\<dots> = take (key_sizes ?t' ! b) (the (keys ?t' ! b))" by (rule eq)
        also have "\<dots> = take (oks ! i) k" by (simp only: True at_p0 option.sel)
        finally have "take (oks ! i) (the (keys ?t' ! a)) = take (oks ! i) k" .
        from new_old[OF a an oa k1 this] show ?thesis by simp
      next
        case False
        with an h other[OF an] other[OF False] dn a b show ?thesis
          unfolding keys_distinct_def by auto
      qed
    qed
  qed
qed

lemma rehash_loop_distinct:
  assumes "rehash_inv t (length is)" "moved ok oks ov seen t" "keys_distinct t"
      and old: "\<forall>a\<in>S. \<forall>b\<in>S. ok ! a \<noteq> None \<and> ok ! b \<noteq> None \<and> oks ! a = oks ! b \<and>
                  take (oks ! a) (the (ok ! a)) = take (oks ! b) (the (ok ! b)) \<longrightarrow> a = b"
      and "distinct is" "set is \<subseteq> S" "seen \<subseteq> S" "seen \<inter> set is = {}"
      and "chain_ok t"
  shows "keys_distinct (foldl (rehash_entry ok oks ov) t is)"
  using assms(1-3,5-9)
proof (induction "is" arbitrary: t seen)
  case Nil
  then show ?case by simp
next
  case (Cons i "is")
  from Cons.prems(1) have a: "rehash_inv t (Suc (length is))" by simp
  from Cons.prems have i: "i \<in> S" "i \<notin> seen" "seen \<subseteq> S" by auto
  from rehash_entry_distinct[OF a Cons.prems(2,3) old i]
  have d: "keys_distinct (rehash_entry ok oks ov t i)" .
  from rehash_entry_chain[OF a Cons.prems(8) Cons.prems(2)]
  have c: "chain_ok (rehash_entry ok oks ov t i)"
    and m: "moved ok oks ov (insert i seen) (rehash_entry ok oks ov t i)" by simp_all
  from rehash_entry_inv[OF a] have v: "rehash_inv (rehash_entry ok oks ov t i) (length is)" .
  from Cons.prems have "distinct is" "set is \<subseteq> S" "insert i seen \<subseteq> S" "insert i seen \<inter> set is = {}"
    by auto
  from Cons.IH[OF v m d this c] show ?case by simp
qed

text \<open>Growth keeps a sound table sound.\<close>

lemma resize_sound:
  assumes r: "hash_table_resize t n al = (0, t1)" and s: "sound t"
  shows "sound t1"
proof -
  let ?t0 = "t\<lparr>keys := replicate n None, key_sizes := replicate n 0, ht_values := replicate n NULL,
               capacity := n, ht_size := 0\<rparr>"
  from s have ok: "table_ok t" and valid: "keys_valid t" and dist: "keys_distinct t"
    by (simp_all add: sound_def)
  from ok have thr: "resize_threshold t \<le> 1" by (simp add: table_ok_def)
  from r have al: "calloc_keys al" "calloc_key_sizes al" "calloc_values al" "capacity t < n"
    by (auto simp: hash_table_resize_def Let_def split: if_splits)
  with r have t1: "t1 = foldl (rehash_entry (keys t) (key_sizes t) (ht_values t)) ?t0 [0..<capacity t]"
    by (simp add: hash_table_resize_def Let_def calloc_def)
  have "occupied ?t0 = 0" by (rule occupied_replicate) simp_all
  with al(4) have a: "rehash_inv ?t0 (length [0..<capacity t])" by (simp add: rehash_inv_def)
  have b: "chain_ok ?t0" by (simp add: chain_ok_def)
  have c: "moved (keys t) (key_sizes t) (ht_values t) {} ?t0" by (simp add: moved_def)
  have d: "keys_distinct ?t0" by (simp add: keys_distinct_def)
  have old: "\<forall>a\<in>{0..<capacity t}. \<forall>b\<in>{0..<capacity t}.
      keys t ! a \<noteq> None \<and> keys t ! b \<noteq> None \<and> key_sizes t ! a = key_sizes t ! b \<and>
      take (key_sizes t ! a) (the (keys t ! a)) = take (key_sizes t ! b) (the (keys t ! b)) \<longrightarrow> a = b"
    using dist unfolding keys_distinct_def by auto
  have dist1: "keys_distinct t1"
    unfolding t1 by (rule rehash_loop_distinct[OF a c d old _ _ _ _ b]) simp_all
  note ch = resize_chain[OF r]
  have valid1: "keys_valid t1"
    unfolding keys_valid_def
  proof (intro allI impI)
    fix p k assume p: "p < capacity t1" and k: "keys t1 ! p = Some k"
    with ch(2) obtain i where i: "i < capacity t" "entry t1 p = (keys t ! i, key_sizes t ! i, ht_values t ! i)"
      unfolding moved_def by (auto simp: atLeast0LessThan)
    with k have "keys t ! i = Some k" "key_sizes t1 ! p = key_sizes t ! i" by (simp_all add: entry_def)
    with valid i(1) show "key_sizes t1 ! p \<le> length k" by (auto simp: keys_valid_def)
  qed
  from resize_ok(1)[OF r thr] ch(1) valid1 dist1 show ?thesis by (simp add: sound_def)
qed

lemma create_sound:
  assumes "hash_table_create_with_parameters_and_destructor cap threshold factor destructor al = Inr (Some t)"
      and "create_keys al" "create_key_sizes al" "create_values al" "threshold \<le> 1"
  shows "sound t"
proof -
  from assms have t: "t = \<lparr>capacity = cap, keys = replicate cap None, key_sizes = replicate cap 0,
      ht_values = replicate cap NULL, ht_size = 0, resize_threshold = threshold,
      resize_factor = factor, value_destructor = destructor\<rparr>"
    by (simp add: hash_table_create_with_parameters_and_destructor_def calloc_def split: if_splits)
  have "chain_ok t" "keys_valid t" "keys_distinct t"
    by (simp_all add: chain_ok_def keys_valid_def keys_distinct_def t)
  with create_table_ok[OF assms] show ?thesis by (simp add: sound_def)
qed

text \<open>Insertion keeps a sound table sound, whether it succeeds or fails.\<close>

lemma insert_sound:
  assumes s: "sound t" and len: "key_size \<le> length key"
      and ins: "hash_table_insert (Some t) (Some key) key_size val al = Inr (rc, Some t', ev)"
  shows "sound t'"
proof (cases "load_exceeds t")
  case False
  from s have ok: "table_ok t" by (simp add: sound_def)
  from False ins have "insert_entry t key key_size val al = Inr (rc, Some t', ev)"
    by (simp add: hash_table_insert_def)
  from insert_entry_sound[OF s load_not_exceeded_not_full[OF ok False] len this] show ?thesis .
next
  case True
  with ins obtain n where n: "grown_capacity t = Inr n"
    by (auto simp: hash_table_insert_def split: sum.splits)
  obtain rc1 t1 where rs: "hash_table_resize t n al = (rc1, t1)" by (cases "hash_table_resize t n al")
  show ?thesis
  proof (cases "rc1 = 0")
    case False
    with ins True n rs resize_failure[OF rs False] s show ?thesis
      by (simp add: hash_table_insert_def)
  next
    case z: True
    from s have thr: "resize_threshold t \<le> 1" by (simp add: sound_def table_ok_def)
    from ins True n rs z have e: "insert_entry t1 key key_size val al = Inr (rc, Some t', ev)"
      by (simp add: hash_table_insert_def)
    from insert_entry_sound[OF resize_sound[OF rs[unfolded z] s] resize_ok(2)[OF rs[unfolded z] thr] len e]
    show ?thesis .
  qed
qed

lemma slot_matches_cong:
  "keys t' ! p = keys t ! p \<Longrightarrow> key_sizes t' ! p = key_sizes t ! p \<Longrightarrow>
     slot_matches t' p key key_size = slot_matches t p key key_size"
  by (simp add: slot_matches_def)

text \<open>A slot cannot match two different keys.\<close>

lemma slot_matches_two:
  assumes valid: "keys_valid t" and p: "p < capacity t"
      and len: "key_size \<le> length key" and len2: "key_size2 \<le> length key2"
      and m: "slot_matches t p key key_size" and m2: "slot_matches t p key2 key_size2"
  shows "key_size2 = key_size \<and> take key_size key2 = take key_size key"
proof -
  from m obtain k where k: "keys t ! p = Some k" by (auto simp: slot_matches_def)
  with valid p have lk: "key_sizes t ! p \<le> length k" by (auto simp: keys_valid_def)
  from m[unfolded slot_matches_take[OF k lk len]] m2[unfolded slot_matches_take[OF k lk len2]]
  show ?thesis by simp
qed

text \<open>
  An insertion does not disturb the other keys: a key stored in slot \<open>p\<close> and different from
  the inserted one is found afterwards with the value it had.
\<close>

lemma insert_entry_keeps_other:
  assumes s: "sound t" and nf: "occupied t < capacity t"
      and len: "key_size \<le> length key" and len2: "key_size2 \<le> length key2"
      and p: "p < capacity t" and m: "slot_matches t p key2 key_size2"
      and diff: "\<not> (key_size2 = key_size \<and> take key_size key2 = take key_size key)"
      and ins: "insert_entry t key key_size val al = Inr (rc, Some t', ev)"
  shows "hash_table_get (Some t') (Some key2) key_size2 = Inr (ht_values t ! p)"
proof -
  let ?s = "unat (hash_table_fnv_1a key key_size) mod capacity t"
  from s have valid: "keys_valid t" by (simp add: sound_def)
  from insert_entry_sound[OF s nf len ins] have s': "sound t'" .
  from p have sl: "?s < capacity t" by simp
  have "p < capacity t' \<and> slot_matches t' p key2 key_size2 \<and> ht_values t' ! p = ht_values t ! p"
  proof (cases "probe_loop t key key_size ?s 0")
    case (Found i n)
    with ins p have t': "t' = t\<lparr>ht_values := (ht_values t)[i := val]\<rparr>"
      by (simp add: insert_entry_def)
    from probe_Found_slot[OF Found] have mi: "slot_matches t i key key_size"
      by (simp add: slot_matches_def)
    have "i \<noteq> p"
    proof
      assume "i = p"
      with slot_matches_two[OF valid p len len2 _ m] mi diff show False by simp
    qed
    with p m show ?thesis by (simp add: t' slot_matches_def)
  next
    case (Stopped i n)
    show ?thesis
    proof (cases "malloc_key al")
      case False
      with ins p Stopped have "t' = t" by (simp add: insert_entry_def)
      with p m show ?thesis by simp
    next
      case True
      with ins p Stopped have t': "t' = t\<lparr>keys := (keys t)[i := Some (take key_size key)],
                                    key_sizes := (key_sizes t)[i := key_size],
                                    ht_values := (ht_values t)[i := val],
                                    ht_size := ht_size t + 1\<rparr>"
        by (simp add: insert_entry_def)
      from probe_not_full[OF nf sl, of key key_size] Stopped have "keys t ! i = None" by simp
      with m have "i \<noteq> p" by (auto simp: slot_matches_def)
      with p m show ?thesis by (simp add: t' slot_matches_def)
    qed
  qed
  with get_stored[OF s' len2, of p] show ?thesis by simp
qed

lemma insert_keeps_other:
  assumes s: "sound t"
      and len: "key_size \<le> length key" and len2: "key_size2 \<le> length key2"
      and p: "p < capacity t" and m: "slot_matches t p key2 key_size2"
      and diff: "\<not> (key_size2 = key_size \<and> take key_size key2 = take key_size key)"
      and ins: "hash_table_insert (Some t) (Some key) key_size val al = Inr (rc, Some t', ev)"
  shows "hash_table_get (Some t') (Some key2) key_size2 = Inr (ht_values t ! p)"
proof (cases "load_exceeds t")
  case False
  from s have ok: "table_ok t" by (simp add: sound_def)
  from False ins have "insert_entry t key key_size val al = Inr (rc, Some t', ev)"
    by (simp add: hash_table_insert_def)
  from insert_entry_keeps_other[OF s load_not_exceeded_not_full[OF ok False] len len2 p m diff this]
  show ?thesis .
next
  case True
  with ins obtain n where n: "grown_capacity t = Inr n"
    by (auto simp: hash_table_insert_def split: sum.splits)
  obtain rc1 t1 where rs: "hash_table_resize t n al = (rc1, t1)" by (cases "hash_table_resize t n al")
  show ?thesis
  proof (cases "rc1 = 0")
    case False
    with ins True n rs resize_failure[OF rs False] have "t' = t" by (simp add: hash_table_insert_def)
    with get_stored[OF s len2 p m] show ?thesis by simp
  next
    case z: True
    note r = rs[unfolded z]
    from s have thr: "resize_threshold t \<le> 1" by (simp add: sound_def table_ok_def)
    from ins True n rs z have e: "insert_entry t1 key key_size val al = Inr (rc, Some t', ev)"
      by (simp add: hash_table_insert_def)
    from m have "keys t ! p \<noteq> None" by (simp add: slot_matches_def)
    with resize_chain(2)[OF r] p obtain p1 where p1: "p1 < capacity t1"
      "entry t1 p1 = (keys t ! p, key_sizes t ! p, ht_values t ! p)"
      unfolding moved_def by (auto simp: atLeast0LessThan)
    from p1(2) m have m1: "slot_matches t1 p1 key2 key_size2" by (simp add: slot_matches_def entry_def)
    from p1(2) have v: "ht_values t1 ! p1 = ht_values t ! p" by (simp add: entry_def)
    from insert_entry_keeps_other[OF resize_sound[OF r s] resize_ok(2)[OF r thr] len len2 p1(1) m1 diff e] v
    show ?thesis by simp
  qed
qed

text \<open>A key that no slot holds and that is not the inserted one is still absent afterwards.\<close>

lemma insert_entry_keeps_absent:
  assumes s: "sound t" and nf: "occupied t < capacity t"
      and len: "key_size \<le> length key" and len2: "key_size2 \<le> length key2"
      and abs: "\<forall>p<capacity t. \<not> slot_matches t p key2 key_size2"
      and diff: "\<not> (key_size2 = key_size \<and> take key_size key2 = take key_size key)"
      and ins: "insert_entry t key key_size val al = Inr (rc, Some t', ev)"
  shows "hash_table_get (Some t') (Some key2) key_size2 = Inr NULL"
proof -
  let ?s = "unat (hash_table_fnv_1a key key_size) mod capacity t"
  from nf have cap: "0 < capacity t" by simp
  then have sl: "?s < capacity t" by simp
  from s have ok: "table_ok t" by (simp add: sound_def)
  from insert_entry_success(1)[OF ins] have c': "capacity t' = capacity t" .
  have "\<not> slot_matches t' p key2 key_size2" if p: "p < capacity t" for p
  proof (cases "probe_loop t key key_size ?s 0")
    case (Found i n)
    with ins cap have "t' = t\<lparr>ht_values := (ht_values t)[i := val]\<rparr>"
      by (simp add: insert_entry_def)
    with abs p show ?thesis by (simp add: slot_matches_def)
  next
    case (Stopped i n)
    show ?thesis
    proof (cases "malloc_key al")
      case False
      with ins cap Stopped have "t' = t" by (simp add: insert_entry_def)
      with abs p show ?thesis by simp
    next
      case True
      with ins cap Stopped have t': "t' = t\<lparr>keys := (keys t)[i := Some (take key_size key)],
                                    key_sizes := (key_sizes t)[i := key_size],
                                    ht_values := (ht_values t)[i := val],
                                    ht_size := ht_size t + 1\<rparr>"
        by (simp add: insert_entry_def)
      from probe_index_bound[OF sl, of key key_size 0] Stopped have i: "i < capacity t" by simp
      from ok have lens: "length (keys t) = capacity t" "length (key_sizes t) = capacity t"
        by (simp_all add: table_ok_def)
      show ?thesis
      proof (cases "p = i")
        case False
        with abs p show ?thesis by (simp add: t' slot_matches_def)
      next
        case True
        have k: "keys t' ! i = Some (take key_size key)" and ks: "key_sizes t' ! i = key_size"
          using i lens by (simp_all add: t')
        have "key_sizes t' ! i \<le> length (take key_size key)" using ks len by simp
        from slot_matches_take[OF k this len2] ks diff True show ?thesis by auto
      qed
    qed
  qed
  then have "\<forall>i<capacity t'. keys t' ! i \<noteq> None \<longrightarrow>
      \<not> (key_sizes t' ! i = key_size2 \<and> memcmp (the (keys t' ! i)) key2 key_size2 = 0)"
    unfolding slot_matches_def c' by blast
  from absent_key(1)[OF _ this] cap c' show ?thesis by simp
qed

lemma insert_keeps_absent:
  assumes s: "sound t"
      and len: "key_size \<le> length key" and len2: "key_size2 \<le> length key2"
      and abs: "\<forall>p<capacity t. \<not> slot_matches t p key2 key_size2"
      and diff: "\<not> (key_size2 = key_size \<and> take key_size key2 = take key_size key)"
      and ins: "hash_table_insert (Some t) (Some key) key_size val al = Inr (0, Some t', ev)"
  shows "hash_table_get (Some t') (Some key2) key_size2 = Inr NULL"
  using ins
proof (cases rule: insert_cases)
  case keep
  from s have ok: "table_ok t" by (simp add: sound_def)
  from insert_entry_keeps_absent[OF s load_not_exceeded_not_full[OF ok keep(1)] len len2 abs diff keep(2)]
  show ?thesis .
next
  case (grow n t1)
  from s have thr: "resize_threshold t \<le> 1" by (simp add: sound_def table_ok_def)
  have abs1: "\<forall>p<capacity t1. \<not> slot_matches t1 p key2 key_size2"
  proof (intro allI impI notI)
    fix p assume p: "p < capacity t1" and m: "slot_matches t1 p key2 key_size2"
    then have "keys t1 ! p \<noteq> None" by (simp add: slot_matches_def)
    with resize_chain(2)[OF grow(3)] p obtain i where i: "i < capacity t"
      "entry t1 p = (keys t ! i, key_sizes t ! i, ht_values t ! i)"
      unfolding moved_def by (auto simp: atLeast0LessThan)
    with m have "slot_matches t i key2 key_size2" by (simp add: slot_matches_def entry_def)
    with abs i(1) show False by simp
  qed
  from insert_entry_keeps_absent[OF resize_sound[OF grow(3) s] resize_ok(2)[OF grow(3) thr]
      len len2 abs1 diff grow(4)]
  show ?thesis .
qed

text \<open>
  Removal does not keep the probe-chain invariant. The default table with \<open>"a"\<close> and \<open>"q"\<close>
  inserted is sound; after the removal of \<open>"a"\<close> the key \<open>"q"\<close> in slot 5 is cut off from its
  start slot 4.
\<close>

lemma remove_breaks_chain:
  "sound chain2 \<and> hash_table_remove (Some chain2) (Some key_a) 2 = Inr (Some chain3, [Free_Key key_a, Call_Free 101])
   \<and> \<not> chain_ok chain3"
proof -
  have c: "hash_table_create_with_parameters_and_destructor 16 (1 / 2) 2 None create_ok = Inr (Some chain0)"
    using chain_create
    by (simp add: hash_table_create_def HASH_TABLE_DEFAULT_INITIAL_CAPACITY_def
        HASH_TABLE_DEFAULT_RESIZE_THRESHOLD_def HASH_TABLE_DEFAULT_RESIZE_FACTOR_def)
  have s0: "sound chain0" by (rule create_sound[OF c]) (simp_all add: create_ok_def)
  have s1: "sound chain1" by (rule insert_sound[OF s0 _ chain_insert_a]) (simp add: key_a_def)
  have s2: "sound chain2" by (rule insert_sound[OF s1 _ chain_insert_q]) (simp add: key_q_def)
  have h: "home chain3 5 = 4" by (simp add: home_def eval_defs state_defs)
  have "\<not> chain_ok chain3"
  proof
    assume "chain_ok chain3"
    moreover have "5 < capacity chain3" "keys chain3 ! 5 \<noteq> None" by (simp_all add: state_defs)
    ultimately obtain d where d: "d < capacity chain3" "5 = (home chain3 5 + d) mod capacity chain3"
      "\<forall>e<d. keys chain3 ! ((home chain3 5 + e) mod capacity chain3) \<noteq> None"
      unfolding chain_ok_def by blast
    have cap: "capacity chain3 = 16" by (simp add: state_defs)
    from d(1,2) have "d = 1" unfolding h cap by presburger
    with d(3) have "keys chain3 ! ((home chain3 5 + 0) mod capacity chain3) \<noteq> None" by blast
    then show False unfolding h cap by (simp add: state_defs)
  qed
  with s2 chain_remove_a show ?thesis by simp
qed

section \<open>The claims\<close>

text \<open>
  C1. An insertion that reports failure because an allocation failed should leave the table
  as it was: same capacity, same size, same contents, and no value taken. The code does so
  when the growth itself cannot allocate (\<open>insert_growth_alloc_failure\<close>) and when no growth
  was asked for (\<open>insert_key_alloc_failure_no_growth\<close>). It does not when the growth
  succeeds and the allocation of the key copy (line 203) fails afterwards: the call returns 1
  and the table keeps its new capacity. The run: \<open>create_with_parameters(2, 0.5, 2.0)\<close>,
  insert \<open>"a"\<close>, insert \<open>"b"\<close> with the key allocation failing; the table has capacity 2
  before the failed call and capacity 4 after it.
\<close>

theorem insert_failure_keeps_grown_table:
  "hash_table_create_with_parameters 2 (1 / 2) 2 create_ok = Inr (Some upd0)
   \<and> hash_table_insert (Some upd0) (Some key_a) 2 101 all_ok = Inr (0, Some upd1, [])
   \<and> hash_table_insert (Some upd1) (Some key_b) 2 102 key_malloc_fails = Inr (1, Some upd1r, [])
   \<and> capacity upd1 = 2 \<and> capacity upd1r = 4 \<and> upd1r \<noteq> upd1"
  using upd_create upd_insert_a upd_insert_b_fails
  by (simp add: state_defs)




text \<open>
  C3. A key that was inserted and not removed, overwritten or cleared since should be
  found again with its latest value, also across a growth. As long as nothing is removed
  this holds: insertion keeps the table sound, a successful insertion sets the value of its
  key and leaves the other keys alone (\<open>insert_then_get\<close>, \<open>insert_keeps_other\<close>), and a
  growth moves every entry (\<open>resize_transparent\<close>). The code loses a key when an unrelated
  key that sits earlier on its probe path is removed: \<open>hash_table_remove\<close> marks the slot empty
  (lines 232--234) and every later scan stops at the first empty slot. The run on the table
  of \<open>hash_table_create()\<close>: insert \<open>"a"\<close> (slot 4), insert \<open>"q"\<close> (same hash index, so slot
  5), lookup of \<open>"q"\<close> gives its value 102, remove \<open>"a"\<close>; then lookup of \<open>"q"\<close> gives NULL.
\<close>

theorem get_misses_key_after_unrelated_remove:
  "hash_table_create create_ok = Inr (Some chain0)
   \<and> hash_table_insert (Some chain0) (Some key_a) 2 101 all_ok = Inr (0, Some chain1, [])
   \<and> hash_table_insert (Some chain1) (Some key_q) 2 102 all_ok = Inr (0, Some chain2, [])
   \<and> hash_table_get (Some chain2) (Some key_q) 2 = Inr 102
   \<and> hash_table_remove (Some chain2) (Some key_a) 2 = Inr (Some chain3, [Free_Key key_a, Call_Free 101])
   \<and> hash_table_get (Some chain3) (Some key_q) 2 = Inr NULL"
  using chain_create chain_insert_a chain_insert_q chain_get_q_before chain_remove_a chain_get_q_after
  by simp

text \<open>
  C4. \<open>hash_table_contains\<close> should answer 1 exactly when a slot holds the key, whatever the
  stored value. In the run of C3, after \<open>"a"\<close> is removed, slot 5 still holds the key \<open>"q"\<close>
  with its length 2 and its value 102, and \<open>hash_table_contains\<close> answers 0. It also answers
  0 for a key stored with a NULL value, because it tests the result of \<open>hash_table_get\<close>
  against NULL: insert \<open>"b"\<close> with value NULL into the empty default table succeeds, and
  contains \<open>"b"\<close> is 0.
\<close>

theorem contains_misses_stored_key:
  "hash_table_remove (Some chain2) (Some key_a) 2 = Inr (Some chain3, [Free_Key key_a, Call_Free 101])
   \<and> keys chain3 ! 5 = Some key_q \<and> key_sizes chain3 ! 5 = 2 \<and> ht_values chain3 ! 5 = 102
   \<and> hash_table_contains (Some chain3) (Some key_q) 2 = Inr 0
   \<and> hash_table_insert (Some chain0) (Some key_b) 2 NULL all_ok = Inr (0, Some nullv1, [])
   \<and> keys nullv1 ! 15 = Some key_b \<and> key_sizes nullv1 ! 15 = 2
   \<and> hash_table_contains (Some nullv1) (Some key_b) 2 = Inr 0"
  using chain_remove_a chain_contains_q_after nullv_insert nullv_contains
  by (simp add: state_defs)

text \<open>
  C5. Every creation form should report an allocation failure by returning no table. The
  code never tests an allocation in \<open>hash_table_create_with_parameters_and_destructor\<close>:
  when \<open>malloc\<close> fails, line 42 writes through the NULL pointer; when a \<open>calloc\<close> fails, a
  table whose array pointer is NULL is returned as if it were complete.
\<close>

theorem create_ignores_allocation_failure:
  "hash_table_create create_malloc_fails = Inl Null_Dereference
   \<and> hash_table_create_with_destructor (Some 7) create_malloc_fails = Inl Null_Dereference
   \<and> hash_table_create_with_parameters 4 (3 / 4) 2 create_malloc_fails = Inl Null_Dereference
   \<and> hash_table_create_with_parameters_and_destructor 4 (3 / 4) 2 (Some 7) create_malloc_fails
       = Inl Null_Dereference
   \<and> hash_table_create create_calloc_fails = Inr (Some broken0)
   \<and> capacity broken0 = 16 \<and> keys broken0 = []"
  by (simp add: eval_defs state_defs)




text \<open>
  C7. A key that was never inserted, or was inserted and removed since, should be absent,
  and removing a key that no slot holds should change nothing. The second part and the
  first half of the first hold (\<open>absent_key\<close>). A removed key can come back, by the defect of
  C3: in the run of C3, after \<open>"a"\<close> is removed, remove \<open>"q"\<close> does not reach the slot of
  \<open>"q"\<close> and changes nothing; a later insert of \<open>"a"\<close> fills slot 4 again, and lookup of
  \<open>"q"\<close>, which was removed and not inserted since, gives 102 and contains gives 1.
\<close>

theorem removed_key_found_again:
  "hash_table_remove (Some chain2) (Some key_a) 2 = Inr (Some chain3, [Free_Key key_a, Call_Free 101])
   \<and> hash_table_remove (Some chain3) (Some key_q) 2 = Inr (Some chain3, [])
   \<and> hash_table_get (Some chain3) (Some key_q) 2 = Inr NULL
   \<and> hash_table_insert (Some chain3) (Some key_a) 2 104 all_ok = Inr (0, Some chain4, [])
   \<and> hash_table_get (Some chain4) (Some key_q) 2 = Inr 102
   \<and> hash_table_contains (Some chain4) (Some key_q) 2 = Inr 1"
  using chain_remove_a chain_remove_q chain_get_q_after chain_insert_a_again chain_get_q_again
    chain_contains_q_again
  by simp



text \<open>
  C9. The scan that lookup, contains, insert and remove share is a total function (its
  termination is proved with the definition of \<open>probe_loop\<close>), and, started with the
  counter at 0 as the four operations start it, it leaves the loop after at most
  \<open>capacity\<close> iterations, whatever the arrays hold.
\<close>

theorem probe_scan_bounded:
  "probe_iterations (probe_loop t key key_size index 0) \<le> capacity t"
  using probe_iterations_bound[of t key key_size index 0] by simp

text \<open>
  On a table whose two slots are both occupied (\<open>create_with_parameters(2, 1.0, 2.0)\<close>,
  insert \<open>"b"\<close>, insert \<open>"d"\<close>), the scan for \<open>"a"\<close> makes exactly 2 iterations.
\<close>

theorem probe_scan_bounded_witness:
  "hash_table_create_with_parameters 2 1 2 create_ok = Inr (Some full0)
   \<and> hash_table_insert (Some full0) (Some key_b) 2 101 all_ok = Inr (0, Some full1, [])
   \<and> hash_table_insert (Some full1) (Some key_d) 2 102 all_ok = Inr (0, Some full2, [])
   \<and> probe_loop full2 key_a 2 (unat (hash_table_fnv_1a key_a 2) mod capacity full2) 0 = Stopped 0 2
   \<and> probe_iterations (probe_loop full2 key_a 2 (unat (hash_table_fnv_1a key_a 2) mod capacity full2) 0)
       \<le> capacity full2"
  using probe_scan_bounded[of full2 key_a 2 "unat (hash_table_fnv_1a key_a 2) mod capacity full2"]
    full_create full_insert_b full_insert_d full_probe_a
  by blast

text \<open>
  C10, as stated: on the table that create returns for capacity 0, the modulus by zero is
  reached by every later lookup or insert. It is not reached by insert:
  \<open>(float)(size + 1) / capacity\<close> is \<open>+infinity\<close>, the test of line 174 fires,
  \<open>hash_table_resize\<close> is asked for capacity 0 and refuses (line 114), and insert returns 1
  before line 181.
\<close>

theorem insert_on_zero_capacity_returns_failure:
  "hash_table_create_with_parameters 0 (1 / 2) 2 create_ok = Inr (Some zero0)
   \<and> capacity zero0 = 0
   \<and> hash_table_insert (Some zero0) (Some key_a) 2 101 all_ok = Inr (1, Some zero0, [])
   \<and> hash_table_insert (Some zero0) (Some key_a) 2 101 all_ok \<noteq> Inl Division_By_Zero"
  using zero_create zero_insert
  by (simp add: state_defs)

text \<open>
  C10, amended. Lookup, contains and remove compute \<open>hash mod capacity\<close> and reach a
  modulus by zero on every table of capacity 0; create validates nothing and returns such
  a table when asked for capacity 0. Insert on a table of capacity 0 (with a finite
  threshold) reports failure and leaves the table unchanged, without reaching its modulus.
  On a table of positive capacity none of the four operations reaches a modulus by zero.
\<close>

theorem modulus_by_zero:
  "(capacity t = 0 \<longrightarrow>
      hash_table_get (Some t) (Some key) key_size = Inl Division_By_Zero \<and>
      hash_table_contains (Some t) (Some key) key_size = Inl Division_By_Zero \<and>
      hash_table_remove (Some t) (Some key) key_size = Inl Division_By_Zero \<and>
      hash_table_insert (Some t) (Some key) key_size val al = Inr (1, Some t, []))
   \<and> (0 < capacity t \<longrightarrow>
      hash_table_get (Some t) (Some key) key_size \<noteq> Inl Division_By_Zero \<and>
      hash_table_contains (Some t) (Some key) key_size \<noteq> Inl Division_By_Zero \<and>
      hash_table_remove (Some t) (Some key) key_size \<noteq> Inl Division_By_Zero \<and>
      hash_table_insert (Some t) (Some key) key_size val al \<noteq> Inl Division_By_Zero)
   \<and> (malloc_table cal \<longrightarrow>
      hash_table_create_with_parameters_and_destructor 0 threshold factor destructor cal =
        Inr (Some \<lparr>capacity = 0, keys = [], key_sizes = [], ht_values = [], ht_size = 0,
                   resize_threshold = threshold, resize_factor = factor,
                   value_destructor = destructor\<rparr>))"
proof (intro conjI impI)
  assume z: "capacity t = 0"
  show "hash_table_get (Some t) (Some key) key_size = Inl Division_By_Zero"
    using z by (simp add: hash_table_get_def)
  then show "hash_table_contains (Some t) (Some key) key_size = Inl Division_By_Zero"
    by (simp add: hash_table_contains_def)
  show "hash_table_remove (Some t) (Some key) key_size = Inl Division_By_Zero"
    using z by (simp add: hash_table_remove_def)
  show "hash_table_insert (Some t) (Some key) key_size val al = Inr (1, Some t, [])"
    using z by (simp add: hash_table_insert_def load_exceeds_def grown_capacity_def hash_table_resize_def)
next
  assume p: "0 < capacity t"
  show g: "hash_table_get (Some t) (Some key) key_size \<noteq> Inl Division_By_Zero"
    using p by (simp add: hash_table_get_def split: probe_result.splits)
  show "hash_table_contains (Some t) (Some key) key_size \<noteq> Inl Division_By_Zero"
    using g by (auto simp: hash_table_contains_def split: sum.splits)
  show "hash_table_remove (Some t) (Some key) key_size \<noteq> Inl Division_By_Zero"
    using p by (simp add: hash_table_remove_def split: probe_result.splits)
  have e: "insert_entry t1 key key_size val al \<noteq> Inl Division_By_Zero" if "0 < capacity t1" for t1
    using that by (simp add: insert_entry_def split: probe_result.splits)
  show "hash_table_insert (Some t) (Some key) key_size val al \<noteq> Inl Division_By_Zero"
  proof (cases "load_exceeds t")
    case False
    with e[OF p] show ?thesis by (simp add: hash_table_insert_def)
  next
    case True
    show ?thesis
    proof (cases "grown_capacity t")
      case (Inl f)
      then have "f = Float_Conversion_Out_Of_Range"
        by (simp add: grown_capacity_def Let_def split: if_splits)
      with True Inl show ?thesis by (simp add: hash_table_insert_def)
    next
      case (Inr m)
      obtain rc t1 where r: "hash_table_resize t m al = (rc, t1)" by (cases "hash_table_resize t m al")
      show ?thesis
      proof (cases "rc = 0")
        case True
        with r resize_success[of t m al t1] p have "0 < capacity t1" by simp
        from e[OF this] \<open>load_exceeds t\<close> Inr r True show ?thesis by (simp add: hash_table_insert_def)
      next
        case False
        with \<open>load_exceeds t\<close> Inr r show ?thesis by (simp add: hash_table_insert_def)
      qed
    qed
  qed
next
  assume "malloc_table cal"
  then show "hash_table_create_with_parameters_and_destructor 0 threshold factor destructor cal =
        Inr (Some \<lparr>capacity = 0, keys = [], key_sizes = [], ht_values = [], ht_size = 0,
                   resize_threshold = threshold, resize_factor = factor,
                   value_destructor = destructor\<rparr>)"
    by (simp add: hash_table_create_with_parameters_and_destructor_def calloc_def)
qed

theorem modulus_by_zero_witness:
  "capacity zero0 = 0
   \<and> hash_table_get (Some zero0) (Some key_a) 2 = Inl Division_By_Zero
   \<and> hash_table_contains (Some zero0) (Some key_a) 2 = Inl Division_By_Zero
   \<and> hash_table_remove (Some zero0) (Some key_a) 2 = Inl Division_By_Zero
   \<and> hash_table_insert (Some zero0) (Some key_a) 2 101 all_ok = Inr (1, Some zero0, [])
   \<and> 0 < capacity chain0
   \<and> hash_table_get (Some chain0) (Some key_a) 2 \<noteq> Inl Division_By_Zero
   \<and> hash_table_contains (Some chain0) (Some key_a) 2 \<noteq> Inl Division_By_Zero
   \<and> hash_table_remove (Some chain0) (Some key_a) 2 \<noteq> Inl Division_By_Zero
   \<and> hash_table_insert (Some chain0) (Some key_a) 2 101 all_ok \<noteq> Inl Division_By_Zero
   \<and> malloc_table create_ok
   \<and> hash_table_create_with_parameters_and_destructor 0 (1 / 2) 2 None create_ok = Inr (Some zero0)"
proof -
  have z: "capacity zero0 = 0" by (simp add: state_defs)
  have p: "0 < capacity chain0" by (simp add: state_defs)
  have m: "malloc_table create_ok" by (simp add: create_ok_def)
  from modulus_by_zero[where t = zero0 and key = key_a and key_size = 2 and val = 101 and al = all_ok
      and cal = create_ok and threshold = "1 / 2" and factor = 2 and destructor = None] z m
  have a: "hash_table_get (Some zero0) (Some key_a) 2 = Inl Division_By_Zero
      \<and> hash_table_contains (Some zero0) (Some key_a) 2 = Inl Division_By_Zero
      \<and> hash_table_remove (Some zero0) (Some key_a) 2 = Inl Division_By_Zero
      \<and> hash_table_insert (Some zero0) (Some key_a) 2 101 all_ok = Inr (1, Some zero0, [])
      \<and> hash_table_create_with_parameters_and_destructor 0 (1 / 2) 2 None create_ok = Inr (Some zero0)"
    by (simp add: zero0_def)
  from modulus_by_zero[where t = chain0 and key = key_a and key_size = 2 and val = 101 and al = all_ok
      and cal = create_ok] p
  have b: "hash_table_get (Some chain0) (Some key_a) 2 \<noteq> Inl Division_By_Zero
      \<and> hash_table_contains (Some chain0) (Some key_a) 2 \<noteq> Inl Division_By_Zero
      \<and> hash_table_remove (Some chain0) (Some key_a) 2 \<noteq> Inl Division_By_Zero
      \<and> hash_table_insert (Some chain0) (Some key_a) 2 101 all_ok \<noteq> Inl Division_By_Zero"
    by blast
  from z p m a b show ?thesis by blast
qed

end
